theory Spec2Isabelle
  imports Main "HOL-Library.Multiset" "HOL-Library.Multiset_Order"
begin

section \<open>Constants and types\<close>

text \<open>
  The flight planner of \<^verbatim>\<open>src/flight_planner.py\<close>. Python integers are \<open>int\<close>, Python
  strings are \<open>string\<close> (read as lists of code points below 256), a raised exception is
  the \<open>Inl\<close> branch of a sum, and a loop that is not obviously finite is a
  \<^theory_text>\<open>partial_function\<close> in the option monad, where \<open>None\<close> means that the loop
  never returns.
\<close>

datatype error =
    ValueError string
  | TypeError string
  | AttributeError string
  | IndexError string

definition MIN_LAYOVER_MINUTES :: int where
  "MIN_LAYOVER_MINUTES = 60"

text \<open>
  The dataclass \<^verbatim>\<open>Flight\<close>. A dataclass does not check the types of its fields: the
  text loader and the searches hold a string in each of the three text fields, and that
  is the type \<open>Flight\<close>; the CSV loader stores the cells of a row as they are, each a
  string or \<^verbatim>\<open>None\<close>, and that is the type \<open>CsvFlight\<close>.
\<close>

record 'txt Flight_of =
  origin :: 'txt
  dest :: 'txt
  flight_number :: 'txt
  depart :: int
  arrive :: int
  economy :: int
  business :: int
  first :: int

type_synonym Flight = "string Flight_of"
type_synonym CsvFlight = "string option Flight_of"

definition price_for :: "Flight \<Rightarrow> string \<Rightarrow> error + int" where
  "price_for self cabin =
     (if cabin = ''economy'' then Inr (economy self)
      else if cabin = ''business'' then Inr (business self)
      else if cabin = ''first'' then Inr (first self)
      else Inl (ValueError (''Unknown cabin: '' @ cabin)))"

text \<open>The price that \<^verbatim>\<open>price_for\<close> returns for the cabin, if it returns one, is not negative.\<close>

definition price_nonneg :: "string \<Rightarrow> Flight \<Rightarrow> bool" where
  "price_nonneg cabin f = (case price_for f cabin of Inl e \<Rightarrow> True | Inr p \<Rightarrow> 0 \<le> p)"

datatype Itinerary = Itinerary (flights: "Flight list")

definition is_empty :: "Itinerary \<Rightarrow> bool" where
  "is_empty self = (flights self = [])"

definition itin_origin :: "Itinerary \<Rightarrow> string option" where
  "itin_origin self = (if flights self \<noteq> [] then Some (origin (hd (flights self))) else None)"

definition itin_dest :: "Itinerary \<Rightarrow> string option" where
  "itin_dest self = (if flights self \<noteq> [] then Some (dest (last (flights self))) else None)"

definition depart_time :: "Itinerary \<Rightarrow> int option" where
  "depart_time self = (if flights self \<noteq> [] then Some (depart (hd (flights self))) else None)"

definition arrive_time :: "Itinerary \<Rightarrow> int option" where
  "arrive_time self = (if flights self \<noteq> [] then Some (arrive (last (flights self))) else None)"

text \<open>\<^verbatim>\<open>sum(f.price_for(cabin) for f in self.flights)\<close>: the first failing leg raises.\<close>

fun sum_prices :: "string \<Rightarrow> Flight list \<Rightarrow> int \<Rightarrow> error + int" where
  "sum_prices cabin [] acc = Inr acc"
| "sum_prices cabin (f # fs) acc =
     (case price_for f cabin of
        Inl e \<Rightarrow> Inl e
      | Inr p \<Rightarrow> sum_prices cabin fs (acc + p))"

definition total_price :: "Itinerary \<Rightarrow> string \<Rightarrow> error + int" where
  "total_price self cabin = sum_prices cabin (flights self) 0"

definition num_stops :: "Itinerary \<Rightarrow> int" where
  "num_stops self = max 0 (int (length (flights self)) - 1)"

type_synonym Graph = "string \<rightharpoonup> Flight list"

section \<open>Graph construction\<close>

text \<open>\<^verbatim>\<open>g.setdefault(f.origin, []).append(f)\<close>\<close>

definition add_flight :: "Graph \<Rightarrow> Flight \<Rightarrow> Graph" where
  "add_flight g f =
     g(origin f \<mapsto> (case g (origin f) of None \<Rightarrow> [] | Some l \<Rightarrow> l) @ [f])"

definition build_graph :: "Flight list \<Rightarrow> Graph" where
  "build_graph fs = foldl add_flight Map.empty fs"

text \<open>\<^verbatim>\<open>graph.get(airport, [])\<close>\<close>

definition graph_get :: "Graph \<Rightarrow> string \<Rightarrow> Flight list" where
  "graph_get graph airport = (case graph airport of None \<Rightarrow> [] | Some l \<Rightarrow> l)"

section \<open>Comparison of heap entries\<close>

text \<open>
  The heap entries are tuples, compared by Python's tuple ordering: the first position
  where the two tuples differ (by \<open>==\<close>) decides, with the \<open><\<close> of that component.
  Integers and strings are ordered; lists are ordered the same way as tuples, component
  by component; \<^verbatim>\<open>Flight\<close> is a dataclass declared with \<^verbatim>\<open>frozen=True\<close> only, which gives
  it \<open>==\<close> on its fields and no \<open><\<close>, so ordering two different flights raises
  \<^verbatim>\<open>TypeError\<close>.
\<close>

fun str_lt :: "string \<Rightarrow> string \<Rightarrow> bool" where
  "str_lt [] [] = False"
| "str_lt [] (y # ys) = True"
| "str_lt (x # xs) [] = False"
| "str_lt (x # xs) (y # ys) =
     (if x = y then str_lt xs ys else (of_char x :: nat) < of_char y)"

definition flight_lt :: "Flight \<Rightarrow> Flight \<Rightarrow> error + bool" where
  "flight_lt a b =
     Inl (TypeError ''< not supported between instances of Flight and Flight'')"

fun path_lt :: "Flight list \<Rightarrow> Flight list \<Rightarrow> error + bool" where
  "path_lt [] [] = Inr False"
| "path_lt [] (y # ys) = Inr True"
| "path_lt (x # xs) [] = Inr False"
| "path_lt (x # xs) (y # ys) = (if x = y then path_lt xs ys else flight_lt x y)"

type_synonym estate = "int \<times> string \<times> Flight list"
type_synonym cstate = "int \<times> int \<times> string \<times> Flight list"

fun estate_lt :: "estate \<Rightarrow> estate \<Rightarrow> error + bool" where
  "estate_lt (t1, a1, p1) (t2, a2, p2) =
     (if t1 \<noteq> t2 then Inr (t1 < t2)
      else if a1 \<noteq> a2 then Inr (str_lt a1 a2)
      else path_lt p1 p2)"

fun cstate_lt :: "cstate \<Rightarrow> cstate \<Rightarrow> error + bool" where
  "cstate_lt (c1, t1, a1, p1) (c2, t2, a2, p2) =
     (if c1 \<noteq> c2 then Inr (c1 < c2)
      else if t1 \<noteq> t2 then Inr (t1 < t2)
      else if a1 \<noteq> a2 then Inr (str_lt a1 a2)
      else path_lt p1 p2)"

section \<open>The binary heap of heapq\<close>

text \<open>
  \<^verbatim>\<open>heapq\<close> keeps the heap in a list; \<^verbatim>\<open>_siftdown\<close> and \<^verbatim>\<open>_siftup\<close> are its two
  loops. Which entries are compared decides whether \<^verbatim>\<open>TypeError\<close> is raised, so the
  loops are modelled index by index. Every index read below is in range: \<open>pos\<close> is below
  the length of the list, a parent position is below \<open>pos\<close>, and child positions are
  compared with \<open>endpos\<close> before they are read.
\<close>

function siftdown_loop ::
  "('a \<Rightarrow> 'a \<Rightarrow> error + bool) \<Rightarrow> 'a list \<Rightarrow> 'a \<Rightarrow> nat \<Rightarrow> nat \<Rightarrow> error + 'a list" where
  "siftdown_loop lt heap newitem startpos pos =
     (if pos > startpos then
        (let parentpos = (pos - 1) div 2;
             parent = heap ! parentpos
         in case lt newitem parent of
              Inl e \<Rightarrow> Inl e
            | Inr b \<Rightarrow>
                if b then siftdown_loop lt (heap[pos := parent]) newitem startpos parentpos
                else Inr (heap[pos := newitem]))
      else Inr (heap[pos := newitem]))"
  by pat_completeness auto
termination
  by (relation "measure (\<lambda>(lt, heap, newitem, startpos, pos). pos)") auto

definition siftdown ::
  "('a \<Rightarrow> 'a \<Rightarrow> error + bool) \<Rightarrow> 'a list \<Rightarrow> nat \<Rightarrow> nat \<Rightarrow> error + 'a list" where
  "siftdown lt heap startpos pos = siftdown_loop lt heap (heap ! pos) startpos pos"

function siftup_loop ::
  "('a \<Rightarrow> 'a \<Rightarrow> error + bool) \<Rightarrow> 'a list \<Rightarrow> nat \<Rightarrow> error + ('a list \<times> nat)" where
  "siftup_loop lt heap pos =
     (let endpos = length heap; childpos = 2 * pos + 1 in
      if childpos < endpos then
        (let rightpos = childpos + 1 in
         case (if rightpos < endpos
               then (case lt (heap ! childpos) (heap ! rightpos) of
                       Inl e \<Rightarrow> Inl e
                     | Inr b \<Rightarrow> Inr (\<not> b))
               else Inr False) of
           Inl e \<Rightarrow> Inl e
         | Inr right \<Rightarrow>
             (let childpos' = (if right then rightpos else childpos)
              in siftup_loop lt (heap[pos := heap ! childpos']) childpos'))
      else Inr (heap, pos))"
  by pat_completeness auto
termination
  by (relation "measure (\<lambda>(lt, heap, pos). length heap - pos)") (auto split: if_splits)

definition siftup ::
  "('a \<Rightarrow> 'a \<Rightarrow> error + bool) \<Rightarrow> 'a list \<Rightarrow> nat \<Rightarrow> error + 'a list" where
  "siftup lt heap pos =
     (let startpos = pos; newitem = heap ! pos in
      case siftup_loop lt heap pos of
        Inl e \<Rightarrow> Inl e
      | Inr (heap', pos') \<Rightarrow> siftdown lt (heap'[pos' := newitem]) startpos pos')"

definition heappush ::
  "('a \<Rightarrow> 'a \<Rightarrow> error + bool) \<Rightarrow> 'a list \<Rightarrow> 'a \<Rightarrow> error + 'a list" where
  "heappush lt heap item =
     (let heap' = heap @ [item] in siftdown lt heap' 0 (length heap' - 1))"

definition heappop ::
  "('a \<Rightarrow> 'a \<Rightarrow> error + bool) \<Rightarrow> 'a list \<Rightarrow> error + ('a \<times> 'a list)" where
  "heappop lt heap =
     (if heap = [] then Inl (IndexError ''pop from empty list'')
      else
        (let lastelt = last heap; heap' = butlast heap in
         if heap' \<noteq> [] then
           (let returnitem = heap' ! 0 in
            case siftup lt (heap'[0 := lastelt]) 0 of
              Inl e \<Rightarrow> Inl e
            | Inr heap'' \<Rightarrow> Inr (returnitem, heap''))
         else Inr (lastelt, heap')))"

section \<open>Search functions\<close>

text \<open>The \<^verbatim>\<open>for f in graph.get(airport, [])\<close> loop of the earliest-arrival search.\<close>

fun push_earliest ::
  "int \<Rightarrow> Flight list \<Rightarrow> Flight list \<Rightarrow> estate list \<Rightarrow> error + estate list" where
  "push_earliest current_time path [] heap = Inr heap"
| "push_earliest current_time path (f # fs) heap =
     (let layover_ok =
            (if path = [] then depart f \<ge> current_time
             else depart f \<ge> current_time + MIN_LAYOVER_MINUTES)
      in if layover_ok then
           (case heappush estate_lt heap (arrive f, dest f, path @ [f]) of
              Inl e \<Rightarrow> Inl e
            | Inr heap' \<Rightarrow> push_earliest current_time path fs heap')
         else push_earliest current_time path fs heap)"

text \<open>
  The \<^verbatim>\<open>while heap\<close> loop. The result is \<open>None\<close> when the loop runs forever,
  \<open>Some (Inl e)\<close> when it raises, \<open>Some (Inr None)\<close> when the function returns
  \<^verbatim>\<open>None\<close> and \<open>Some (Inr (Some i))\<close> when it returns the itinerary \<open>i\<close>.
\<close>

partial_function (option) earliest_loop ::
  "Graph \<Rightarrow> string \<Rightarrow> estate list \<Rightarrow> (string \<rightharpoonup> int) \<Rightarrow> (error + Itinerary option) option"
where
  "earliest_loop graph dst heap visited =
     (if heap = [] then Some (Inr None)
      else
        (case heappop estate_lt heap of
           Inl e \<Rightarrow> Some (Inl e)
         | Inr (item, heap1) \<Rightarrow>
             (case item of (current_time, airport, path) \<Rightarrow>
                if airport = dst \<and> path \<noteq> [] then Some (Inr (Some (Itinerary path)))
                else if (case visited airport of None \<Rightarrow> False | Some v \<Rightarrow> v \<le> current_time)
                  then earliest_loop graph dst heap1 visited
                else
                  (case push_earliest current_time path (graph_get graph airport) heap1 of
                     Inl e \<Rightarrow> Some (Inl e)
                   | Inr heap2 \<Rightarrow>
                       earliest_loop graph dst heap2 (visited(airport \<mapsto> current_time))))))"

declare earliest_loop.simps [code]

definition find_earliest_itinerary ::
  "Graph \<Rightarrow> string \<Rightarrow> string \<Rightarrow> int \<Rightarrow> (error + Itinerary option) option" where
  "find_earliest_itinerary graph start dst earliest_departure =
     earliest_loop graph dst [(earliest_departure, start, [])] Map.empty"

text \<open>The \<^verbatim>\<open>for\<close> loop of the cheapest-price search; \<^verbatim>\<open>price_for\<close> may raise.\<close>

fun push_cheapest ::
  "string \<Rightarrow> int \<Rightarrow> int \<Rightarrow> Flight list \<Rightarrow> Flight list \<Rightarrow> cstate list \<Rightarrow> error + cstate list"
where
  "push_cheapest cabin tot current_time path [] heap = Inr heap"
| "push_cheapest cabin tot current_time path (f # fs) heap =
     (let layover_ok =
            (if path = [] then depart f \<ge> current_time
             else depart f \<ge> current_time + MIN_LAYOVER_MINUTES)
      in if layover_ok then
           (case price_for f cabin of
              Inl e \<Rightarrow> Inl e
            | Inr p \<Rightarrow>
                (case heappush cstate_lt heap (tot + p, arrive f, dest f, path @ [f]) of
                   Inl e \<Rightarrow> Inl e
                 | Inr heap' \<Rightarrow> push_cheapest cabin tot current_time path fs heap'))
         else push_cheapest cabin tot current_time path fs heap)"

partial_function (option) cheapest_loop ::
  "Graph \<Rightarrow> string \<Rightarrow> string \<Rightarrow> cstate list \<Rightarrow> (string \<rightharpoonup> int)
     \<Rightarrow> (error + Itinerary option) option"
where
  "cheapest_loop graph dst cabin heap visited =
     (if heap = [] then Some (Inr None)
      else
        (case heappop cstate_lt heap of
           Inl e \<Rightarrow> Some (Inl e)
         | Inr (item, heap1) \<Rightarrow>
             (case item of (tot, current_time, airport, path) \<Rightarrow>
                if airport = dst \<and> path \<noteq> [] then Some (Inr (Some (Itinerary path)))
                else if (case visited airport of None \<Rightarrow> False | Some v \<Rightarrow> v \<le> tot)
                  then cheapest_loop graph dst cabin heap1 visited
                else
                  (case push_cheapest cabin tot current_time path
                          (graph_get graph airport) heap1 of
                     Inl e \<Rightarrow> Some (Inl e)
                   | Inr heap2 \<Rightarrow>
                       cheapest_loop graph dst cabin heap2 (visited(airport \<mapsto> tot))))))"

declare cheapest_loop.simps [code]

definition find_cheapest_itinerary ::
  "Graph \<Rightarrow> string \<Rightarrow> string \<Rightarrow> int \<Rightarrow> string \<Rightarrow> (error + Itinerary option) option" where
  "find_cheapest_itinerary graph start dst earliest_departure cabin =
     cheapest_loop graph dst cabin [(0, earliest_departure, start, [])] Map.empty"

text \<open>
  The two loops once more, each returning with its result what the loop has done: the
  airports it has expanded, in order (\<open>expanded\<close> takes the airport wherever the loop
  assigns \<^verbatim>\<open>visited[airport]\<close>), and, when the function returns, the queue as it is at
  the \<^verbatim>\<open>return\<close>. Nothing else differs from \<open>earliest_loop\<close> and \<open>cheapest_loop\<close>.
\<close>

partial_function (option) earliest_run ::
  "Graph \<Rightarrow> string \<Rightarrow> estate list \<Rightarrow> (string \<rightharpoonup> int) \<Rightarrow> string list
     \<Rightarrow> (string list \<times> (error + estate list \<times> Itinerary option)) option"
where
  "earliest_run graph dst heap visited expanded =
     (if heap = [] then Some (expanded, Inr (heap, None))
      else
        (case heappop estate_lt heap of
           Inl e \<Rightarrow> Some (expanded, Inl e)
         | Inr (item, heap1) \<Rightarrow>
             (case item of (current_time, airport, path) \<Rightarrow>
                if airport = dst \<and> path \<noteq> []
                  then Some (expanded, Inr (heap1, Some (Itinerary path)))
                else if (case visited airport of None \<Rightarrow> False | Some v \<Rightarrow> v \<le> current_time)
                  then earliest_run graph dst heap1 visited expanded
                else
                  (case push_earliest current_time path (graph_get graph airport) heap1 of
                     Inl e \<Rightarrow> Some (expanded @ [airport], Inl e)
                   | Inr heap2 \<Rightarrow>
                       earliest_run graph dst heap2 (visited(airport \<mapsto> current_time))
                         (expanded @ [airport])))))"

declare earliest_run.simps [code]

partial_function (option) cheapest_run ::
  "Graph \<Rightarrow> string \<Rightarrow> string \<Rightarrow> cstate list \<Rightarrow> (string \<rightharpoonup> int) \<Rightarrow> string list
     \<Rightarrow> (string list \<times> (error + cstate list \<times> Itinerary option)) option"
where
  "cheapest_run graph dst cabin heap visited expanded =
     (if heap = [] then Some (expanded, Inr (heap, None))
      else
        (case heappop cstate_lt heap of
           Inl e \<Rightarrow> Some (expanded, Inl e)
         | Inr (item, heap1) \<Rightarrow>
             (case item of (tot, current_time, airport, path) \<Rightarrow>
                if airport = dst \<and> path \<noteq> []
                  then Some (expanded, Inr (heap1, Some (Itinerary path)))
                else if (case visited airport of None \<Rightarrow> False | Some v \<Rightarrow> v \<le> tot)
                  then cheapest_run graph dst cabin heap1 visited expanded
                else
                  (case push_cheapest cabin tot current_time path
                          (graph_get graph airport) heap1 of
                     Inl e \<Rightarrow> Some (expanded @ [airport], Inl e)
                   | Inr heap2 \<Rightarrow>
                       cheapest_run graph dst cabin heap2 (visited(airport \<mapsto> tot))
                         (expanded @ [airport])))))"

declare cheapest_run.simps [code]

text \<open>What the caller of the function gets from such a run.\<close>

definition outcome :: "error + 'q \<times> Itinerary option \<Rightarrow> error + Itinerary option" where
  "outcome q = (case q of Inl e \<Rightarrow> Inl e | Inr (heap, r) \<Rightarrow> Inr r)"

section \<open>Time helpers\<close>

text \<open>
  \<^verbatim>\<open>str.strip()\<close>, \<^verbatim>\<open>str.split(":")\<close> and \<^verbatim>\<open>str.split()\<close> on strings of code points
  below 256: white space is what \<^verbatim>\<open>str.isspace\<close> accepts there.
\<close>

definition is_space :: "char \<Rightarrow> bool" where
  "is_space c =
     (let n = (of_char c :: nat)
      in (9 \<le> n \<and> n \<le> 13) \<or> (28 \<le> n \<and> n \<le> 32) \<or> n = 133 \<or> n = 160)"

definition strip :: "string \<Rightarrow> string" where
  "strip s = rev (dropWhile is_space (rev (dropWhile is_space s)))"

fun split_on_acc :: "char \<Rightarrow> string \<Rightarrow> string \<Rightarrow> string list" where
  "split_on_acc sep cur [] = [rev cur]"
| "split_on_acc sep cur (c # cs) =
     (if c = sep then rev cur # split_on_acc sep [] cs
      else split_on_acc sep (c # cur) cs)"

definition split_on :: "char \<Rightarrow> string \<Rightarrow> string list" where
  "split_on sep s = split_on_acc sep [] s"

fun split_ws_acc :: "string \<Rightarrow> string \<Rightarrow> string list" where
  "split_ws_acc cur [] = (if cur = [] then [] else [rev cur])"
| "split_ws_acc cur (c # cs) =
     (if is_space c then
        (if cur = [] then split_ws_acc [] cs else rev cur # split_ws_acc [] cs)
      else split_ws_acc (c # cur) cs)"

definition split_ws :: "string \<Rightarrow> string list" where
  "split_ws s = split_ws_acc [] s"

text \<open>The decimal digits of a natural number.\<close>

definition digit_char :: "nat \<Rightarrow> char" where
  "digit_char n = char_of (48 + n)"

fun dec_digits :: "nat \<Rightarrow> string" where
  "dec_digits n =
     (if n < 10 then [digit_char n] else dec_digits (n div 10) @ [digit_char (n mod 10)])"

declare dec_digits.simps [simp del]

text \<open>
  \<^verbatim>\<open>int(str)\<close>. The white space that \<^verbatim>\<open>int\<close> skips at both ends is not the white
  space of \<^verbatim>\<open>str.strip()\<close>: the separators \<open>0x1C\<close> to \<open>0x1F\<close> are not skipped. A
  decimal literal is an optional sign and then digits, with single underscores allowed
  between digits. A literal of more than \<open>int_max_str_digits\<close> digits is refused. The
  messages are written without the quotation marks that Python puts around a value or
  a type name.
\<close>

definition is_int_space :: "char \<Rightarrow> bool" where
  "is_int_space c =
     (let n = (of_char c :: nat)
      in (9 \<le> n \<and> n \<le> 13) \<or> n = 32 \<or> n = 133 \<or> n = 160)"

definition int_strip :: "string \<Rightarrow> string" where
  "int_strip s = rev (dropWhile is_int_space (rev (dropWhile is_int_space s)))"

definition int_max_str_digits :: nat where
  "int_max_str_digits = 4300"

definition is_digit :: "char \<Rightarrow> bool" where
  "is_digit c = (48 \<le> (of_char c :: nat) \<and> (of_char c :: nat) \<le> 57)"

definition digit_val :: "char \<Rightarrow> int" where
  "digit_val c = int (of_char c) - 48"

fun digits_value :: "int \<Rightarrow> string \<Rightarrow> int option" where
  "digits_value acc [] = Some acc"
| "digits_value acc [c] = (if is_digit c then Some (10 * acc + digit_val c) else None)"
| "digits_value acc (c # d # ds) =
     (if is_digit c then digits_value (10 * acc + digit_val c) (d # ds)
      else if c = CHR ''_'' \<and> is_digit d then digits_value (10 * acc + digit_val d) ds
      else None)"

definition literal_value :: "string \<Rightarrow> int option" where
  "literal_value s =
     (case s of
        [] \<Rightarrow> None
      | c # cs \<Rightarrow> if is_digit c then digits_value (digit_val c) cs else None)"

definition py_int :: "string \<Rightarrow> error + int" where
  "py_int s =
     (let t = int_strip s;
          negative = (t \<noteq> [] \<and> hd t = CHR ''-'');
          signed = (t \<noteq> [] \<and> (hd t = CHR ''-'' \<or> hd t = CHR ''+''));
          body = (if signed then tl t else t);
          digits = length (filter is_digit body)
      in case literal_value body of
           None \<Rightarrow> Inl (ValueError (''invalid literal for int() with base 10: '' @ s))
         | Some n \<Rightarrow>
             if digits > int_max_str_digits then
               Inl (ValueError (''Exceeds the limit ('' @ dec_digits int_max_str_digits
                      @ '' digits) for integer string conversion: value has ''
                      @ dec_digits digits
                      @ '' digits; use sys.set_int_max_str_digits() to increase the limit''))
             else Inr (if negative then - n else n))"

definition parse_time :: "string \<Rightarrow> error + int" where
  "parse_time hhmm =
     (let parts = split_on CHR '':'' (strip hhmm) in
      if length parts \<noteq> 2 then Inl (ValueError (''Invalid time format: '' @ hhmm))
      else
        (case py_int (parts ! 0) of
           Inl e \<Rightarrow> Inl (ValueError (''Invalid hour/minute in time: '' @ hhmm))
         | Inr hour \<Rightarrow>
             (case py_int (parts ! 1) of
                Inl e \<Rightarrow> Inl (ValueError (''Invalid hour/minute in time: '' @ hhmm))
              | Inr minute \<Rightarrow>
                  if \<not> (0 \<le> hour \<and> hour < 24 \<and> 0 \<le> minute \<and> minute < 60)
                  then Inl (ValueError (''Hour or minute out of range: '' @ hhmm))
                  else Inr (hour * 60 + minute))))"

text \<open>The format \<^verbatim>\<open>02d\<close>.\<close>

definition zfill :: "nat \<Rightarrow> string \<Rightarrow> string" where
  "zfill w s = replicate (w - length s) CHR ''0'' @ s"

definition fmt_02d :: "int \<Rightarrow> string" where
  "fmt_02d n =
     (if n < 0 then CHR ''-'' # zfill 1 (dec_digits (nat (- n)))
      else zfill 2 (dec_digits (nat n)))"

definition format_time :: "int \<Rightarrow> string" where
  "format_time minutes =
     (let hour = minutes div 60; minute = minutes mod 60
      in fmt_02d hour @ '':'' @ fmt_02d minute)"

section \<open>Loading flights\<close>

definition startswith :: "string \<Rightarrow> string \<Rightarrow> bool" where
  "startswith s pre = (take (length pre) s = pre)"

definition parse_flight_line_txt :: "string \<Rightarrow> error + Flight option" where
  "parse_flight_line_txt line0 =
     (let line = strip line0 in
      if line = [] \<or> startswith line ''#'' then Inr None
      else
        (let parts = split_ws line in
         if length parts \<noteq> 8 then
           Inl (ValueError (''Expected 8 fields, got '' @ dec_digits (length parts)
                              @ '': '' @ line))
         else
           (case parse_time (parts ! 3) of
              Inl e \<Rightarrow> Inl e
            | Inr depart_min \<Rightarrow>
                (case parse_time (parts ! 4) of
                   Inl e \<Rightarrow> Inl e
                 | Inr arrive_min \<Rightarrow>
                     if arrive_min \<le> depart_min then
                       Inl (ValueError (''Arrival must be after departure: '' @ line))
                     else
                       (case py_int (parts ! 5) of
                          Inl e \<Rightarrow> Inl e
                        | Inr econ \<Rightarrow>
                            (case py_int (parts ! 6) of
                               Inl e \<Rightarrow> Inl e
                             | Inr biz \<Rightarrow>
                                 (case py_int (parts ! 7) of
                                    Inl e \<Rightarrow> Inl e
                                  | Inr fst_price \<Rightarrow>
                                      Inr (Some \<lparr>origin = parts ! 0, dest = parts ! 1,
                                                 flight_number = parts ! 2,
                                                 depart = depart_min, arrive = arrive_min,
                                                 economy = econ, business = biz,
                                                 first = fst_price\<rparr>))))))))"

text \<open>
  \<^verbatim>\<open>load_flights_txt\<close> reads the lines of the file at \<open>path\<close>; the lines are a
  parameter here. A \<^verbatim>\<open>ValueError\<close> of a line is raised again with the path and the
  line number in front, and ends the load.
\<close>

fun load_lines :: "string \<Rightarrow> nat \<Rightarrow> string list \<Rightarrow> Flight list \<Rightarrow> error + Flight list" where
  "load_lines path lineno [] loaded = Inr loaded"
| "load_lines path lineno (line # rest) loaded =
     (case parse_flight_line_txt line of
        Inl e \<Rightarrow>
          (case e of
             ValueError m \<Rightarrow>
               Inl (ValueError (path @ '':'' @ dec_digits lineno @ '': '' @ m))
           | _ \<Rightarrow> Inl e)
      | Inr None \<Rightarrow> load_lines path (lineno + 1) rest loaded
      | Inr (Some flight) \<Rightarrow> load_lines path (lineno + 1) rest (loaded @ [flight]))"

definition load_flights_txt :: "string \<Rightarrow> string list \<Rightarrow> error + Flight list" where
  "load_flights_txt path file_lines = load_lines path 1 file_lines []"

text \<open>
  \<^verbatim>\<open>csv.DictReader\<close> gives the header as \<^verbatim>\<open>fieldnames\<close> (\<^verbatim>\<open>None\<close> for an empty file)
  and each row as a dictionary from column name to cell; the cell of a column that a
  short row does not reach is \<^verbatim>\<open>None\<close>, on which \<^verbatim>\<open>parse_time\<close> raises
  \<^verbatim>\<open>AttributeError\<close> and \<^verbatim>\<open>int\<close> raises \<^verbatim>\<open>TypeError\<close>. The header and the rows are
  parameters here, and so are the two texts that the messages embed:
  \<open>cols_text\<close> is what \<^verbatim>\<open>str\<close> makes of the set \<^verbatim>\<open>required_cols\<close> and \<open>row_text row\<close>
  is what it makes of the dictionary \<open>row\<close>.
\<close>

type_synonym csv_row = "string \<rightharpoonup> string"

definition required_cols :: "string list" where
  "required_cols =
     [''origin'', ''dest'', ''flight_number'', ''depart'', ''arrive'', ''economy'',
      ''business'', ''first'']"

definition parse_time_cell :: "string option \<Rightarrow> error + int" where
  "parse_time_cell cell =
     (case cell of
        None \<Rightarrow> Inl (AttributeError ''NoneType object has no attribute strip'')
      | Some s \<Rightarrow> parse_time s)"

definition int_cell :: "string option \<Rightarrow> error + int" where
  "int_cell cell =
     (case cell of
        None \<Rightarrow>
          Inl (TypeError
            ''int() argument must be a string, a bytes-like object or a real number, not NoneType'')
      | Some s \<Rightarrow> py_int s)"

text \<open>The body of the \<^verbatim>\<open>for row in reader\<close> loop.\<close>

definition csv_row_flight :: "(csv_row \<Rightarrow> string) \<Rightarrow> csv_row \<Rightarrow> error + CsvFlight" where
  "csv_row_flight row_text row =
     (case parse_time_cell (row ''depart'') of
        Inl e \<Rightarrow> Inl e
      | Inr depart_min \<Rightarrow>
          (case parse_time_cell (row ''arrive'') of
             Inl e \<Rightarrow> Inl e
           | Inr arrive_min \<Rightarrow>
               if arrive_min \<le> depart_min then
                 Inl (ValueError (''Arrival must be after departure: '' @ row_text row))
               else
                 (case int_cell (row ''economy'') of
                    Inl e \<Rightarrow> Inl e
                  | Inr econ \<Rightarrow>
                      (case int_cell (row ''business'') of
                         Inl e \<Rightarrow> Inl e
                       | Inr biz \<Rightarrow>
                           (case int_cell (row ''first'') of
                              Inl e \<Rightarrow> Inl e
                            | Inr fst_price \<Rightarrow>
                                Inr \<lparr>origin = row ''origin'', dest = row ''dest'',
                                     flight_number = row ''flight_number'',
                                     depart = depart_min, arrive = arrive_min,
                                     economy = econ, business = biz,
                                     first = fst_price\<rparr>)))))"

fun load_rows ::
  "(csv_row \<Rightarrow> string) \<Rightarrow> csv_row list \<Rightarrow> CsvFlight list \<Rightarrow> error + CsvFlight list" where
  "load_rows row_text [] loaded = Inr loaded"
| "load_rows row_text (row # rest) loaded =
     (case csv_row_flight row_text row of
        Inl e \<Rightarrow> Inl e
      | Inr flight \<Rightarrow> load_rows row_text rest (loaded @ [flight]))"

definition load_flights_csv ::
  "string \<Rightarrow> (csv_row \<Rightarrow> string) \<Rightarrow> string list option \<Rightarrow> csv_row list
     \<Rightarrow> error + CsvFlight list" where
  "load_flights_csv cols_text row_text fieldnames rows =
     (if \<not> list_all (\<lambda>c. c \<in> set (case fieldnames of None \<Rightarrow> [] | Some ns \<Rightarrow> ns))
              required_cols
      then Inl (ValueError (''Missing required CSV columns: '' @ cols_text))
      else load_rows row_text rows [])"

text \<open>
  The conditions of the specification on the times of a flight record: both times are
  minutes of one day, and the flight arrives after it departs.
\<close>

definition times_valid :: "'txt Flight_of \<Rightarrow> bool" where
  "times_valid f =
     (0 \<le> depart f \<and> depart f < 1440 \<and> 0 \<le> arrive f \<and> arrive f < 1440 \<and>
      depart f < arrive f)"

section \<open>Itineraries that satisfy the constraints\<close>

text \<open>
  The constraints of the specification on an itinerary from \<open>start\<close> to \<open>dst\<close>: it has
  at least one leg, every leg is a flight of the graph, the first leg leaves \<open>start\<close> at
  or after the earliest departure, consecutive legs connect with a layover of at least
  \<open>MIN_LAYOVER_MINUTES\<close>, and the last leg arrives at \<open>dst\<close>.
\<close>

fun layovers_ok :: "Flight list \<Rightarrow> bool" where
  "layovers_ok [] = True"
| "layovers_ok [f] = True"
| "layovers_ok (f # g # rest) =
     (dest f = origin g \<and> depart g \<ge> arrive f + MIN_LAYOVER_MINUTES \<and> layovers_ok (g # rest))"

definition satisfies_constraints ::
  "Graph \<Rightarrow> string \<Rightarrow> string \<Rightarrow> int \<Rightarrow> Flight list \<Rightarrow> bool" where
  "satisfies_constraints graph start dst earliest_departure p =
     (p \<noteq> [] \<and> list_all (\<lambda>f. f \<in> set (graph_get graph (origin f))) p \<and>
      origin (hd p) = start \<and> dest (last p) = dst \<and>
      depart (hd p) \<ge> earliest_departure \<and> layovers_ok p)"

section \<open>Example schedules\<close>

definition mk_flight ::
  "string \<Rightarrow> string \<Rightarrow> string \<Rightarrow> int \<Rightarrow> int \<Rightarrow> int \<Rightarrow> int \<Rightarrow> int \<Rightarrow> Flight" where
  "mk_flight a b n d r e bu f =
     \<lparr>origin = a, dest = b, flight_number = n, depart = d, arrive = r,
      economy = e, business = bu, first = f\<rparr>"

text \<open>
  The schedule of the specification's scenario: A to B from 08:00 to 10:00, B to C from
  11:00 to 13:00 (a layover of exactly 60 minutes), and A to C direct from 09:00 to 15:00.
\<close>

definition scenario_flights :: "Flight list" where
  "scenario_flights =
     [mk_flight ''A'' ''B'' ''X1'' 480 600 100 200 300,
      mk_flight ''B'' ''C'' ''X2'' 660 780 50 100 150,
      mk_flight ''A'' ''C'' ''X3'' 540 900 200 250 300]"

text \<open>Two different flights from A to B that arrive at the same time, at the same prices.\<close>

definition tie_flights :: "Flight list" where
  "tie_flights =
     [mk_flight ''A'' ''B'' ''X1'' 480 600 100 200 300,
      mk_flight ''A'' ''B'' ''X2'' 500 600 100 200 300,
      mk_flight ''B'' ''C'' ''X3'' 660 780 50 100 150]"

text \<open>
  A cheap flight from A to B that arrives too late for the only connection to C, and an
  expensive one that arrives in time.
\<close>

definition late_cheap_flights :: "Flight list" where
  "late_cheap_flights =
     [mk_flight ''A'' ''B'' ''X1'' 480 720 10 20 30,
      mk_flight ''A'' ''B'' ''X2'' 480 540 100 200 300,
      mk_flight ''B'' ''C'' ''X3'' 600 660 10 20 30]"

text \<open>A cycle: A to B and back.\<close>

definition round_trip_flights :: "Flight list" where
  "round_trip_flights =
     [mk_flight ''A'' ''B'' ''X1'' 480 540 10 20 30,
      mk_flight ''B'' ''A'' ''X2'' 600 660 100 200 300]"

text \<open>
  One record from A to A that arrives before it departs, at a negative price; no loader
  produces it.
\<close>

definition loop_flight :: Flight where
  "loop_flight = mk_flight ''A'' ''A'' ''L'' 100 0 (- 1) 0 0"

text \<open>Records with valid times, one of them at a negative price: B is cheaper by way of C.\<close>

definition negative_price_flights :: "Flight list" where
  "negative_price_flights =
     [mk_flight ''A'' ''B'' ''X1'' 480 540 1 1 1,
      mk_flight ''A'' ''C'' ''X2'' 480 500 5 5 5,
      mk_flight ''C'' ''B'' ''X3'' 560 600 (- 10) 0 0]"

text \<open>
  Records with non-negative prices, one of them arriving before it departs: B is reached
  earlier by way of C. No loader produces the third record.
\<close>

definition backward_flights :: "Flight list" where
  "backward_flights =
     [mk_flight ''A'' ''B'' ''X1'' 480 540 1 1 1,
      mk_flight ''A'' ''C'' ''X2'' 480 560 5 5 5,
      mk_flight ''C'' ''B'' ''X3'' 620 500 10 10 10]"

text \<open>A line and a CSV row with a negative economy price, and a line that arrives early.\<close>

definition negative_price_line :: string where
  "negative_price_line = ''A B X1 08:00 10:00 -5 200 300''"

definition early_arrival_line :: string where
  "early_arrival_line = ''A B X1 10:00 08:00 5 200 300''"

definition early_arrival_row :: csv_row where
  "early_arrival_row =
     map_of [(''origin'', ''A''), (''dest'', ''B''), (''flight_number'', ''X1''),
             (''depart'', ''10:00''), (''arrive'', ''08:00''), (''economy'', ''5''),
             (''business'', ''200''), (''first'', ''300'')]"

text \<open>A stand-in for the text of a row: its cells in the order of \<open>required_cols\<close>.\<close>

definition cells_text :: "csv_row \<Rightarrow> string" where
  "cells_text row =
     concat (map (\<lambda>c. (case row c of None \<Rightarrow> ''None'' | Some v \<Rightarrow> v) @ '';'') required_cols)"

definition negative_price_row :: csv_row where
  "negative_price_row =
     map_of [(''origin'', ''A''), (''dest'', ''B''), (''flight_number'', ''X1''),
             (''depart'', ''08:00''), (''arrive'', ''10:00''), (''economy'', ''-5''),
             (''business'', ''200''), (''first'', ''300'')]"

section \<open>Auxiliary notions for the proofs\<close>

text \<open>The test \<^verbatim>\<open>layover_ok\<close> of both searches, as a predicate on the flight.\<close>

definition departs_ok :: "int \<Rightarrow> Flight list \<Rightarrow> Flight \<Rightarrow> bool" where
  "departs_ok current_time path f =
     (if path = [] then depart f \<ge> current_time
      else depart f \<ge> current_time + MIN_LAYOVER_MINUTES)"

text \<open>
  What holds of every entry of the heap: it is the initial entry, or its path satisfies
  the constraints from \<open>start\<close> to the airport of the entry and ends at the time of the
  entry.
\<close>

definition estate_ok :: "Flight list \<Rightarrow> string \<Rightarrow> int \<Rightarrow> estate \<Rightarrow> bool" where
  "estate_ok fs start ed s =
     (case s of (t, a, p) \<Rightarrow>
        (p = [] \<and> a = start \<and> t = ed) \<or>
        (satisfies_constraints (build_graph fs) start a ed p \<and> arrive (last p) = t))"

definition cstate_ok :: "Flight list \<Rightarrow> string \<Rightarrow> int \<Rightarrow> cstate \<Rightarrow> bool" where
  "cstate_ok fs start ed s = (case s of (c, t, a, p) \<Rightarrow> estate_ok fs start ed (t, a, p))"

text \<open>
  The number of flights that arrive after \<open>t\<close>, and the multiset of these numbers over
  the entries of a heap: the measure that decreases with every iteration of the
  loop of the cheapest-price search when every flight arrives after it departs.
\<close>

definition later_arrivals :: "Flight list \<Rightarrow> int \<Rightarrow> nat" where
  "later_arrivals fs t = length (filter (\<lambda>f. arrive f > t) fs)"

definition cweight :: "Flight list \<Rightarrow> cstate list \<Rightarrow> nat multiset" where
  "cweight fs heap = image_mset (\<lambda>s. later_arrivals fs (fst (snd s))) (mset heap)"

declare siftup_loop.simps [simp del]
declare siftdown_loop.simps [simp del]

text \<open>
  The order that \<^verbatim>\<open>heapq\<close> keeps: with \<open>key\<close> the first component of an entry, no entry
  has a smaller key than its parent. A comparison that returns is \<open>compat\<close>ible with the
  key: it says \<^verbatim>\<open>True\<close> only when the key of the left entry is not larger, \<^verbatim>\<open>False\<close> only
  when it is not smaller.
\<close>

definition compat :: "('a \<Rightarrow> 'a \<Rightarrow> error + bool) \<Rightarrow> ('a \<Rightarrow> int) \<Rightarrow> bool" where
  "compat lt key =
     ((\<forall>x y. lt x y = Inr True \<longrightarrow> key x \<le> key y) \<and>
      (\<forall>x y. lt x y = Inr False \<longrightarrow> key y \<le> key x))"

definition parent :: "nat \<Rightarrow> nat" where
  "parent i = (i - 1) div 2"

definition heap_ok :: "('a \<Rightarrow> int) \<Rightarrow> 'a list \<Rightarrow> bool" where
  "heap_ok key h = (\<forall>i<length h. 0 < i \<longrightarrow> key (h ! parent i) \<le> key (h ! i))"

text \<open>
  The invariant of \<^verbatim>\<open>_siftdown\<close>, where the entry at \<open>pos\<close> may be smaller than its
  parent, and the invariant of the loop of \<^verbatim>\<open>_siftup\<close>, where the entry at \<open>pos\<close> is a
  hole.
\<close>

definition sift_inv :: "('a \<Rightarrow> int) \<Rightarrow> 'a list \<Rightarrow> nat \<Rightarrow> bool" where
  "sift_inv key g pos =
     (pos < length g \<and>
      (\<forall>i<length g. 0 < i \<longrightarrow> i \<noteq> pos \<longrightarrow> key (g ! parent i) \<le> key (g ! i)) \<and>
      (0 < pos \<longrightarrow>
         (\<forall>i<length g. 0 < i \<longrightarrow> parent i = pos \<longrightarrow> key (g ! parent pos) \<le> key (g ! i))))"

definition hole_inv :: "('a \<Rightarrow> int) \<Rightarrow> 'a list \<Rightarrow> nat \<Rightarrow> bool" where
  "hole_inv key g pos =
     (pos < length g \<and>
      (\<forall>i<length g. 0 < i \<longrightarrow> i \<noteq> pos \<longrightarrow> parent i \<noteq> pos \<longrightarrow>
           key (g ! parent i) \<le> key (g ! i)) \<and>
      (0 < pos \<longrightarrow>
         (\<forall>i<length g. 0 < i \<longrightarrow> parent i = pos \<longrightarrow> key (g ! parent pos) \<le> key (g ! i))))"

text \<open>
  The invariant of a search whose keys never fall below the key of the entry that pushes
  them: the heap is ordered, no entry of the heap has a key below a value recorded in
  \<open>visited\<close>, and every airport expanded so far is recorded there, once.
\<close>

definition settled :: "('a \<Rightarrow> int) \<Rightarrow> 'a list \<Rightarrow> (string \<rightharpoonup> int) \<Rightarrow> string list \<Rightarrow> bool" where
  "settled key heap visited expanded =
     (heap_ok key heap \<and>
      (\<forall>a v. visited a = Some v \<longrightarrow> (\<forall>e\<in>set heap. v \<le> key e)) \<and>
      distinct expanded \<and> set expanded \<subseteq> dom visited)"

text \<open>
  What is left to do at an airport and in all: an airport not yet in \<open>visited\<close> counts for
  more than any airport that is, and an airport in \<open>visited\<close> counts for the number of the
  times in \<open>ts\<close> that are below its recorded value. Every expansion records a smaller
  value for its airport, so it lowers the potential.
\<close>

definition unsettled :: "int list \<Rightarrow> (string \<rightharpoonup> int) \<Rightarrow> string \<Rightarrow> nat" where
  "unsettled ts visited a =
     (case visited a of
        None \<Rightarrow> Suc (length ts)
      | Some v \<Rightarrow> length (filter (\<lambda>t. t < v) ts))"

definition potential :: "int list \<Rightarrow> string list \<Rightarrow> (string \<rightharpoonup> int) \<Rightarrow> nat" where
  "potential ts as visited = sum_list (map (unsettled ts visited) as)"

section \<open>The heap keeps its entries\<close>

lemma mset_update_swap:
  "i < length xs \<Longrightarrow> j < length xs \<Longrightarrow>
   mset (xs[i := xs ! j, j := v]) = mset (xs[i := v])"
proof (cases "i = j")
  case True
  then show ?thesis by simp
next
  case False
  assume a: "i < length xs" "j < length xs"
  have "mset ((xs[i := v])[j := (xs[i := v]) ! i, i := (xs[i := v]) ! j]) = mset (xs[i := v])"
    by (rule mset_swap) (use a in simp_all)
  moreover have "(xs[i := v])[j := (xs[i := v]) ! i, i := (xs[i := v]) ! j] = xs[i := xs ! j, j := v]"
    using a False by (intro nth_equalityI) (auto simp: nth_list_update)
  ultimately show ?thesis by simp
qed

lemma siftdown_loop_mset:
  "pos < length heap \<Longrightarrow> siftdown_loop lt heap newitem startpos pos = Inr h' \<Longrightarrow>
   mset h' = mset (heap[pos := newitem])"
proof (induction lt heap newitem startpos pos rule: siftdown_loop.induct)
  case (1 lt heap newitem startpos pos)
  show ?case
  proof (cases "pos > startpos")
    case False
    with "1.prems" show ?thesis by (subst (asm) siftdown_loop.simps) simp
  next
    case True
    let ?pp = "(pos - 1) div 2"
    have pp: "?pp < pos" using True by auto
    show ?thesis
    proof (cases "lt newitem (heap ! ?pp)")
      case (Inl e)
      with "1.prems" True show ?thesis
        by (subst (asm) siftdown_loop.simps) (simp add: Let_def)
    next
      case (Inr b)
      show ?thesis
      proof (cases b)
        case False
        with "1.prems" True Inr show ?thesis
          by (subst (asm) siftdown_loop.simps) (simp add: Let_def)
      next
        case bt: True
        have rec: "siftdown_loop lt (heap[pos := heap ! ?pp]) newitem startpos ?pp = Inr h'"
          using "1.prems"(2) True Inr bt
          by (subst (asm) siftdown_loop.simps) (simp add: Let_def)
        have "mset h' = mset ((heap[pos := heap ! ?pp])[?pp := newitem])"
          using "1.IH"[OF True refl refl Inr bt _ rec] pp "1.prems"(1) by simp
        also have "\<dots> = mset (heap[pos := newitem])"
          using mset_update_swap[of pos heap ?pp newitem] pp "1.prems"(1) by simp
        finally show ?thesis .
      qed
    qed
  qed
qed

lemma siftdown_mset:
  "pos < length heap \<Longrightarrow> siftdown lt heap startpos pos = Inr h' \<Longrightarrow> mset h' = mset heap"
  using siftdown_loop_mset[of pos heap lt "heap ! pos" startpos h']
  by (simp add: siftdown_def)

lemma heappush_mset:
  "heappush lt heap item = Inr h' \<Longrightarrow> mset h' = add_mset item (mset heap)"
  using siftdown_mset[of "length heap" "heap @ [item]" lt 0 h']
  by (simp add: heappush_def Let_def)

lemma siftup_loop_mset:
  "pos < length heap \<Longrightarrow> siftup_loop lt heap pos = Inr (h', p') \<Longrightarrow>
   p' < length h' \<and> length h' = length heap \<and> mset (h'[p' := v]) = mset (heap[pos := v])"
proof (induction lt heap pos rule: siftup_loop.induct)
  case (1 lt heap pos)
  let ?c = "2 * pos + 1"
  show ?case
  proof (cases "?c < length heap")
    case False
    with "1.prems" show ?thesis
      by (subst (asm) siftup_loop.simps) (simp add: Let_def)
  next
    case True
    define r where "r = (if ?c + 1 < length heap
               then (case lt (heap ! ?c) (heap ! (?c + 1)) of
                       Inl e \<Rightarrow> Inl e
                     | Inr b \<Rightarrow> Inr (\<not> b))
               else Inr False)"
    have "siftup_loop lt heap pos =
       (case r of Inl e \<Rightarrow> Inl e
        | Inr right \<Rightarrow>
            siftup_loop lt (heap[pos := heap ! (if right then ?c + 1 else ?c)])
              (if right then ?c + 1 else ?c))"
      unfolding r_def using True
      by (subst siftup_loop.simps) (simp only: Let_def if_True)
    with "1.prems"(2) have eq:
      "(case r of Inl e \<Rightarrow> Inl e
        | Inr right \<Rightarrow>
            siftup_loop lt (heap[pos := heap ! (if right then ?c + 1 else ?c)])
              (if right then ?c + 1 else ?c)) = Inr (h', p')"
      by simp
    show ?thesis
    proof (cases r)
      case (Inl e)
      with eq show ?thesis by simp
    next
      case (Inr right)
      define c' where "c' = (if right then ?c + 1 else ?c)"
      have c'lt: "c' < length heap"
      proof (cases right)
        case True
        with Inr have "?c + 1 < length heap"
          unfolding r_def by (cases "?c + 1 < length heap") simp_all
        with True show ?thesis by (simp add: c'_def)
      next
        case False
        with \<open>?c < length heap\<close> show ?thesis by (simp add: c'_def)
      qed
      have rec: "siftup_loop lt (heap[pos := heap ! c']) c' = Inr (h', p')"
        using eq Inr by (simp add: c'_def)
      have "p' < length h' \<and> length h' = length (heap[pos := heap ! c']) \<and>
            mset (h'[p' := v]) = mset ((heap[pos := heap ! c'])[c' := v])"
        using "1.IH"[OF refl refl True refl Inr[unfolded r_def] c'_def _ rec] c'lt by simp
      moreover have "mset ((heap[pos := heap ! c'])[c' := v]) = mset (heap[pos := v])"
        using mset_update_swap[of pos heap c' v] c'lt "1.prems"(1) by simp
      ultimately show ?thesis by simp
    qed
  qed
qed

lemma siftup_mset:
  assumes "pos < length heap" "siftup lt heap pos = Inr h'"
  shows "mset h' = mset heap"
proof -
  from assms(2) obtain h1 p1 where
    l: "siftup_loop lt heap pos = Inr (h1, p1)" and
    d: "siftdown lt (h1[p1 := heap ! pos]) pos p1 = Inr h'"
    by (auto simp: siftup_def Let_def split: sum.splits)
  from siftup_loop_mset[OF assms(1) l, of "heap ! pos"]
  have p: "p1 < length h1" and m: "mset (h1[p1 := heap ! pos]) = mset heap"
    by simp_all
  from siftdown_mset[OF _ d] p have "mset h' = mset (h1[p1 := heap ! pos])" by simp
  with m show ?thesis by simp
qed

lemma heappop_mset:
  assumes "heappop lt heap = Inr (x, h')"
  shows "mset heap = add_mset x (mset h')"
proof -
  define bl where "bl = butlast heap"
  define la where "la = last heap"
  from assms have ne: "heap \<noteq> []" by (auto simp: heappop_def)
  then have sn: "heap = bl @ [la]" by (simp add: bl_def la_def)
  have pop: "heappop lt heap =
      (if bl \<noteq> [] then
         (case siftup lt (bl[0 := la]) 0 of Inl e \<Rightarrow> Inl e | Inr h2 \<Rightarrow> Inr (bl ! 0, h2))
       else Inr (la, bl))"
    unfolding heappop_def Let_def bl_def la_def using ne by (simp only: if_False)
  show ?thesis
  proof (cases "bl = []")
    case True
    with assms pop have "x = la" "h' = []" by simp_all
    with sn True show ?thesis by simp
  next
    case False
    with assms pop have x: "x = bl ! 0"
      and s: "siftup lt (bl[0 := la]) 0 = Inr h'"
      by (auto split: sum.splits)
    from False have l0: "0 < length bl" by simp
    from siftup_mset[OF _ s] l0
    have "mset h' = mset (bl[0 := la])" by simp
    also have "\<dots> = add_mset la (mset bl - {#bl ! 0#})"
      using l0 by (simp add: mset_update)
    finally have "add_mset x (mset h') = add_mset la (mset bl)"
      using x l0 by (simp add: nth_mem_mset)
    then show ?thesis using sn by simp
  qed
qed

section \<open>The graph and the inner loops\<close>

lemma graph_get_foldl:
  "graph_get (foldl add_flight g fs) a = graph_get g a @ filter (\<lambda>f. origin f = a) fs"
proof (induction fs arbitrary: g)
  case Nil
  show ?case by simp
next
  case (Cons f fs)
  have "graph_get (add_flight g f) a = graph_get g a @ filter (\<lambda>f. origin f = a) [f]"
    by (simp add: graph_get_def add_flight_def)
  with Cons.IH[of "add_flight g f"] show ?case by simp
qed

lemma graph_get_build_graph:
  "graph_get (build_graph fs) a = filter (\<lambda>f. origin f = a) fs"
  by (simp add: build_graph_def graph_get_foldl) (simp add: graph_get_def)

lemma push_earliest_mset:
  "push_earliest t path fs heap = Inr heap' \<Longrightarrow>
   mset heap' = mset heap +
     mset (map (\<lambda>f. (arrive f, dest f, path @ [f])) (filter (departs_ok t path) fs))"
proof (induction fs arbitrary: heap)
  case Nil
  then show ?case by simp
next
  case (Cons f fs)
  show ?case
  proof (cases "departs_ok t path f")
    case False
    with Cons.prems have "push_earliest t path fs heap = Inr heap'"
      by (simp add: departs_ok_def Let_def)
    from Cons.IH[OF this] False show ?thesis by simp
  next
    case True
    with Cons.prems obtain h1 where
      h1: "heappush estate_lt heap (arrive f, dest f, path @ [f]) = Inr h1" and
      r: "push_earliest t path fs h1 = Inr heap'"
      by (auto simp: departs_ok_def Let_def split: sum.splits if_splits)
    from Cons.IH[OF r] heappush_mset[OF h1] True show ?thesis by simp
  qed
qed

lemma push_cheapest_mset:
  "push_cheapest cabin tot t path fs heap = Inr heap' \<Longrightarrow>
   \<exists>ps. length ps = length (filter (departs_ok t path) fs) \<and>
   mset heap' = mset heap +
     mset (map (\<lambda>(f, p). (tot + p, arrive f, dest f, path @ [f]))
            (zip (filter (departs_ok t path) fs) ps))"
proof (induction fs arbitrary: heap)
  case Nil
  then show ?case by simp
next
  case (Cons f fs)
  show ?case
  proof (cases "departs_ok t path f")
    case False
    with Cons.prems have "push_cheapest cabin tot t path fs heap = Inr heap'"
      by (simp add: departs_ok_def Let_def)
    from Cons.IH[OF this] False show ?thesis by simp
  next
    case True
    with Cons.prems obtain p h1 where
      p: "price_for f cabin = Inr p" and
      h1: "heappush cstate_lt heap (tot + p, arrive f, dest f, path @ [f]) = Inr h1" and
      r: "push_cheapest cabin tot t path fs h1 = Inr heap'"
      by (auto simp: departs_ok_def Let_def split: sum.splits if_splits)
    from Cons.IH[OF r] obtain ps where
      ps: "length ps = length (filter (departs_ok t path) fs)"
        "mset heap' = mset h1 +
           mset (map (\<lambda>(f, p). (tot + p, arrive f, dest f, path @ [f]))
                  (zip (filter (departs_ok t path) fs) ps))"
      by blast
    show ?thesis
      by (rule exI[of _ "p # ps"]) (use ps heappush_mset[OF h1] True in simp)
  qed
qed

section \<open>Every heap entry is a valid partial itinerary\<close>

lemma layovers_ok_snoc:
  "layovers_ok (p @ [f]) =
     (layovers_ok p \<and>
      (p \<noteq> [] \<longrightarrow> dest (last p) = origin f \<and> depart f \<ge> arrive (last p) + MIN_LAYOVER_MINUTES))"
  by (induction p rule: layovers_ok.induct) auto

lemma estate_ok_step:
  assumes ok: "estate_ok fs start ed (t, a, p)"
    and f: "f \<in> set (graph_get (build_graph fs) a)"
    and d: "departs_ok t p f"
  shows "estate_ok fs start ed (arrive f, dest f, p @ [f])"
proof -
  from f have fa: "origin f = a" and fin: "f \<in> set (graph_get (build_graph fs) (origin f))"
    by (auto simp: graph_get_build_graph)
  show ?thesis
  proof (cases "p = []")
    case True
    with ok have "a = start" "t = ed"
      by (auto simp: estate_ok_def satisfies_constraints_def)
    with True d fa fin show ?thesis
      by (simp add: estate_ok_def satisfies_constraints_def departs_ok_def)
  next
    case False
    with ok have sc: "satisfies_constraints (build_graph fs) start a ed p" and t: "arrive (last p) = t"
      by (auto simp: estate_ok_def)
    from sc False d t fa fin show ?thesis
      by (simp add: estate_ok_def satisfies_constraints_def departs_ok_def layovers_ok_snoc)
  qed
qed

lemma push_earliest_ok:
  assumes "push_earliest t p (graph_get (build_graph fs) a) heap = Inr heap'"
    and "estate_ok fs start ed (t, a, p)"
    and "\<forall>s\<in>set heap. estate_ok fs start ed s"
  shows "\<forall>s\<in>set heap'. estate_ok fs start ed s"
proof
  fix s assume "s \<in> set heap'"
  then have "s \<in># mset heap'" by simp
  with push_earliest_mset[OF assms(1)]
  have "s \<in> set heap \<or>
        (\<exists>f\<in>set (graph_get (build_graph fs) a). departs_ok t p f \<and> s = (arrive f, dest f, p @ [f]))"
    by auto
  with assms(2,3) estate_ok_step show "estate_ok fs start ed s" by blast
qed

lemma push_cheapest_ok:
  assumes "push_cheapest cabin tot t p (graph_get (build_graph fs) a) heap = Inr heap'"
    and "estate_ok fs start ed (t, a, p)"
    and "\<forall>s\<in>set heap. cstate_ok fs start ed s"
  shows "\<forall>s\<in>set heap'. cstate_ok fs start ed s"
proof
  fix s assume "s \<in> set heap'"
  then have s: "s \<in># mset heap'" by simp
  from push_cheapest_mset[OF assms(1)] obtain ps where
    "mset heap' = mset heap +
     mset (map (\<lambda>(f, q). (tot + q, arrive f, dest f, p @ [f]))
            (zip (filter (departs_ok t p) (graph_get (build_graph fs) a)) ps))"
    by blast
  with s have "s \<in> set heap \<or>
        (\<exists>f\<in>set (graph_get (build_graph fs) a). \<exists>q. departs_ok t p f \<and>
            s = (tot + q, arrive f, dest f, p @ [f]))"
    by (auto dest!: set_zip_leftD)
  with assms(2,3) estate_ok_step show "cstate_ok fs start ed s"
    by (auto simp: cstate_ok_def)
qed

lemma heappop_set:
  assumes "heappop lt heap = Inr (x, h')"
  shows "x \<in> set heap" and "set h' \<subseteq> set heap"
proof -
  from heappop_mset[OF assms] have "set_mset (mset heap) = set_mset (add_mset x (mset h'))"
    by simp
  then have "set heap = insert x (set h')" by simp
  then show "x \<in> set heap" and "set h' \<subseteq> set heap" by auto
qed

lemma earliest_loop_ok:
  assumes "earliest_loop graph dst heap visited = Some r"
  shows "graph = build_graph fs \<Longrightarrow> (\<forall>s\<in>set heap. estate_ok fs start ed s) \<Longrightarrow>
   r = Inr (Some it) \<Longrightarrow> satisfies_constraints graph start dst ed (flights it)"
  using assms
proof (induction graph dst heap visited r arbitrary: it
        rule: earliest_loop.raw_induct[rotated 1, consumes 1, case_names step])
  case (step loop graph dst heap visited r)
  note eq = step.hyps(1)
  from eq step.prems(3) have ne: "heap \<noteq> []" by (auto split: if_splits)
  with eq step.prems(3) obtain t a p heap1 where
    pop: "heappop estate_lt heap = Inr ((t, a, p), heap1)"
    by (auto split: sum.splits prod.splits)
  note hs = heappop_set[OF pop]
  from hs(1) step.prems(2) have ok: "estate_ok fs start ed (t, a, p)" by blast
  from hs(2) step.prems(2) have ok1: "\<forall>s\<in>set heap1. estate_ok fs start ed s" by blast
  show ?case
  proof (cases "a = dst \<and> p \<noteq> []")
    case True
    with eq step.prems(3) ne pop have "it = Itinerary p" by simp
    with True ok step.prems(1) show ?thesis by (auto simp: estate_ok_def)
  next
    case False
    show ?thesis
    proof (cases "case visited a of None \<Rightarrow> False | Some v \<Rightarrow> v \<le> t")
      case True
      with False eq ne pop have "loop graph dst heap1 visited = Some r" by auto
      from step.IH[OF this step.prems(1) ok1 step.prems(3)] show ?thesis .
    next
      case nv: False
      with False eq step.prems(3) ne pop obtain heap2 where
        pu: "push_earliest t p (graph_get graph a) heap1 = Inr heap2" and
        lp: "loop graph dst heap2 (visited(a \<mapsto> t)) = Some r"
        by (auto split: sum.splits)
      from push_earliest_ok[OF pu[unfolded step.prems(1)] ok ok1]
      have "\<forall>s\<in>set heap2. estate_ok fs start ed s" .
      from step.IH[OF lp step.prems(1) this step.prems(3)] show ?thesis .
    qed
  qed
qed

lemma cheapest_loop_ok:
  assumes "cheapest_loop graph dst cabin heap visited = Some r"
  shows "graph = build_graph fs \<Longrightarrow> (\<forall>s\<in>set heap. cstate_ok fs start ed s) \<Longrightarrow>
   r = Inr (Some it) \<Longrightarrow> satisfies_constraints graph start dst ed (flights it)"
  using assms
proof (induction graph dst cabin heap visited r arbitrary: it
        rule: cheapest_loop.raw_induct[rotated 1, consumes 1, case_names step])
  case (step loop graph dst cabin heap visited r)
  note eq = step.hyps(1)
  from eq step.prems(3) have ne: "heap \<noteq> []" by (auto split: if_splits)
  with eq step.prems(3) obtain c t a p heap1 where
    pop: "heappop cstate_lt heap = Inr ((c, t, a, p), heap1)"
    by (auto split: sum.splits prod.splits)
  note hs = heappop_set[OF pop]
  from hs(1) step.prems(2) have ok: "estate_ok fs start ed (t, a, p)"
    by (auto simp: cstate_ok_def)
  from hs(2) step.prems(2) have ok1: "\<forall>s\<in>set heap1. cstate_ok fs start ed s" by blast
  show ?case
  proof (cases "a = dst \<and> p \<noteq> []")
    case True
    with eq step.prems(3) ne pop have "it = Itinerary p" by simp
    with True ok step.prems(1) show ?thesis by (auto simp: estate_ok_def)
  next
    case False
    show ?thesis
    proof (cases "case visited a of None \<Rightarrow> False | Some v \<Rightarrow> v \<le> c")
      case True
      with False eq ne pop have "loop graph dst cabin heap1 visited = Some r" by auto
      from step.IH[OF this step.prems(1) ok1 step.prems(3)] show ?thesis .
    next
      case nv: False
      with False eq step.prems(3) ne pop obtain heap2 where
        pu: "push_cheapest cabin c t p (graph_get graph a) heap1 = Inr heap2" and
        lp: "loop graph dst cabin heap2 (visited(a \<mapsto> c)) = Some r"
        by (auto split: sum.splits)
      from push_cheapest_ok[OF pu[unfolded step.prems(1)] ok ok1]
      have "\<forall>s\<in>set heap2. cstate_ok fs start ed s" .
      from step.IH[OF lp step.prems(1) this step.prems(3)] show ?thesis .
    qed
  qed
qed

section \<open>The search loops return\<close>

lemma later_arrivals_less:
  assumes "f \<in> set fs" "t < arrive f"
  shows "later_arrivals fs (arrive f) < later_arrivals fs t"
proof -
  let ?Q = "\<lambda>g. arrive g > t" and ?P = "\<lambda>g. arrive g > arrive f"
  have "filter ?P (filter ?Q fs) = filter ?P fs"
    using assms(2) by (auto intro: filter_cong)
  moreover have "length (filter ?P (filter ?Q fs)) < length (filter ?Q fs)"
    by (rule length_filter_less[of f]) (use assms in auto)
  ultimately show ?thesis by (simp add: later_arrivals_def)
qed

lemma mset_replace_less:
  fixes M :: "nat multiset"
  assumes "\<forall>k\<in>#K. k < a"
  shows "M + K < add_mset a M"
proof -
  have "multp (<) (M + K) (M + {#a#})"
    by (rule one_step_implies_multp) (use assms in auto)
  then show ?thesis by (simp add: less_multiset_def)
qed

lemma mset_remove_less:
  fixes M :: "nat multiset"
  shows "M < add_mset a M"
  using mset_replace_less[of "{#}" a M] by simp

lemma departs_ok_le: "departs_ok t p f \<Longrightarrow> t \<le> depart f"
  by (auto simp: departs_ok_def MIN_LAYOVER_MINUTES_def split: if_splits)

lemma cheapest_loop_terminates:
  assumes cover: "\<And>a. set (graph_get graph a) \<subseteq> set fs"
    and valid: "\<forall>a. \<forall>f\<in>set (graph_get graph a). depart f < arrive f"
  shows "\<exists>r. cheapest_loop graph dst cabin heap visited = Some r"
proof (induction heap arbitrary: visited rule: measure_induct_rule[of "cweight fs"])
  case (less heap)
  show ?case
  proof (cases "heap = []")
    case True
    then show ?thesis by (subst cheapest_loop.simps) simp
  next
    case ne: False
    show ?thesis
    proof (cases "heappop cstate_lt heap")
      case (Inl e)
      with ne show ?thesis by (subst cheapest_loop.simps) simp
    next
      case (Inr xh)
      obtain c t a p heap1 where xh: "xh = ((c, t, a, p), heap1)"
        by (metis prod_cases3 surj_pair)
      note pop = Inr[unfolded xh]
      from heappop_mset[OF pop]
      have w: "cweight fs heap = add_mset (later_arrivals fs t) (cweight fs heap1)"
        by (simp add: cweight_def)
      show ?thesis
      proof (cases "a = dst \<and> p \<noteq> []")
        case True
        with ne pop show ?thesis by (subst cheapest_loop.simps) simp
      next
        case False
        show ?thesis
        proof (cases "case visited a of None \<Rightarrow> False | Some v \<Rightarrow> v \<le> c")
          case True
          have "cweight fs heap1 < cweight fs heap" using w mset_remove_less by simp
          from less.IH[OF this, of visited] obtain r where
            "cheapest_loop graph dst cabin heap1 visited = Some r" by blast
          with ne pop False True show ?thesis by (subst cheapest_loop.simps) simp
        next
          case nv: False
          show ?thesis
          proof (cases "push_cheapest cabin c t p (graph_get graph a) heap1")
            case (Inl e)
            with ne pop False nv show ?thesis by (subst cheapest_loop.simps) simp
          next
            case (Inr heap2)
            let ?new = "filter (departs_ok t p) (graph_get graph a)"
            from push_cheapest_mset[OF Inr] obtain ps where
              ps: "mset heap2 = mset heap1 +
                     mset (map (\<lambda>(f, q). (c + q, arrive f, dest f, p @ [f])) (zip ?new ps))"
              by blast
            define K where
              "K = image_mset (\<lambda>(f, q). later_arrivals fs (arrive f)) (mset (zip ?new ps))"
            from ps have "cweight fs heap2 = cweight fs heap1 + K"
              by (simp add: cweight_def K_def image_mset.compositionality comp_def
                    case_prod_unfold)
            moreover have "\<forall>k \<in># K. k < later_arrivals fs t"
            proof -
              have "later_arrivals fs (arrive f) < later_arrivals fs t" if "f \<in> set ?new" for f
              proof -
                from that have fg: "f \<in> set (graph_get graph a)" and d: "departs_ok t p f"
                  by auto
                from fg cover have fin: "f \<in> set fs" by blast
                from departs_ok_le[OF d] valid fg have "t < arrive f" by fastforce
                with fin show ?thesis by (rule later_arrivals_less)
              qed
              then show ?thesis by (auto simp: K_def dest!: set_zip_leftD)
            qed
            ultimately have "cweight fs heap2 < cweight fs heap"
              using w mset_replace_less by simp
            from less.IH[OF this, of "visited(a \<mapsto> c)"] obtain r where
              "cheapest_loop graph dst cabin heap2 (visited(a \<mapsto> c)) = Some r"
              by blast
            with ne pop False nv Inr show ?thesis by (subst cheapest_loop.simps) simp
          qed
        qed
      qed
    qed
  qed
qed

section \<open>Formatting and parsing two digits\<close>

lemma of_char_digit_char: "a < 10 \<Longrightarrow> (of_char (digit_char a) :: nat) = 48 + a"
  by (simp add: digit_char_def)

lemma digit_char_facts:
  assumes "a < 10"
  shows "is_digit (digit_char a)" "digit_val (digit_char a) = int a"
    "\<not> is_space (digit_char a)" "\<not> is_int_space (digit_char a)"
    "digit_char a \<noteq> CHR ''-''" "digit_char a \<noteq> CHR ''+''"
    "digit_char a \<noteq> CHR '':''" "digit_char a \<noteq> CHR ''_''"
proof -
  note oc = of_char_digit_char[OF assms]
  show "is_digit (digit_char a)" using assms by (simp add: is_digit_def oc)
  show "digit_val (digit_char a) = int a" by (simp add: digit_val_def oc)
  show "\<not> is_space (digit_char a)" using assms by (simp add: is_space_def oc Let_def)
  show "\<not> is_int_space (digit_char a)" using assms by (simp add: is_int_space_def oc Let_def)
  have ne: "digit_char a \<noteq> c" if "(of_char c :: nat) < 48 \<or> (of_char c :: nat) > 57" for c
    using that oc assms by auto
  show "digit_char a \<noteq> CHR ''-''" by (rule ne) simp
  show "digit_char a \<noteq> CHR ''+''" by (rule ne) simp
  show "digit_char a \<noteq> CHR '':''" by (rule ne) simp
  show "digit_char a \<noteq> CHR ''_''" by (rule ne) simp
qed

lemma fmt_02d_two_digits:
  assumes "0 \<le> n" "n < 100"
  shows "fmt_02d n = [digit_char (nat n div 10), digit_char (nat n mod 10)]"
proof (cases "nat n < 10")
  case True
  then have "dec_digits (nat n) = [digit_char (nat n)]" by (subst dec_digits.simps) simp
  moreover have "digit_char 0 = CHR ''0''" by code_simp
  ultimately show ?thesis using assms True by (simp add: fmt_02d_def zfill_def)
next
  case False
  from assms have "nat n div 10 < 10" by linarith
  then have "dec_digits (nat n div 10) = [digit_char (nat n div 10)]"
    by (subst dec_digits.simps) simp
  with False have "dec_digits (nat n) = [digit_char (nat n div 10), digit_char (nat n mod 10)]"
    by (subst dec_digits.simps) simp
  with assms show ?thesis by (simp add: fmt_02d_def zfill_def)
qed

lemma strip_no_space:
  assumes "s \<noteq> []" "\<not> is_space (hd s)" "\<not> is_space (last s)"
  shows "strip s = s"
proof -
  from assms have "dropWhile is_space s = s" by (cases s) simp_all
  moreover from assms have "dropWhile is_space (rev s) = rev s"
    by (cases "rev s") (simp_all add: last_rev[symmetric] hd_rev)
  ultimately show ?thesis by (simp add: strip_def)
qed

lemma int_strip_no_space:
  assumes "s \<noteq> []" "\<not> is_int_space (hd s)" "\<not> is_int_space (last s)"
  shows "int_strip s = s"
proof -
  from assms have "dropWhile is_int_space s = s" by (cases s) simp_all
  moreover from assms have "dropWhile is_int_space (rev s) = rev s"
    by (cases "rev s") (simp_all add: last_rev[symmetric] hd_rev)
  ultimately show ?thesis by (simp add: int_strip_def)
qed

lemma py_int_two_digits:
  assumes "a < 10" "b < 10"
  shows "py_int [digit_char a, digit_char b] = Inr (int (10 * a + b))"
proof -
  note fa = digit_char_facts[OF assms(1)] and fb = digit_char_facts[OF assms(2)]
  have "int_strip [digit_char a, digit_char b] = [digit_char a, digit_char b]"
    by (rule int_strip_no_space) (simp_all add: fa fb)
  then show ?thesis
    by (simp add: py_int_def literal_value_def fa fb Let_def int_max_str_digits_def)
qed

lemma split_on_time:
  assumes "a < 10" "b < 10" "c < 10" "d < 10"
  shows "split_on CHR '':'' [digit_char a, digit_char b, CHR '':'', digit_char c, digit_char d]
           = [[digit_char a, digit_char b], [digit_char c, digit_char d]]"
  using digit_char_facts(7)[OF assms(1)] digit_char_facts(7)[OF assms(2)]
        digit_char_facts(7)[OF assms(3)] digit_char_facts(7)[OF assms(4)]
  by (simp add: split_on_def)

section \<open>What the loaders check\<close>

lemma parse_time_range: "parse_time s = Inr m \<Longrightarrow> 0 \<le> m \<and> m < 1440"
  by (auto simp: parse_time_def Let_def split: if_splits sum.splits)

lemma parse_time_out_of_range:
  assumes "length (split_on CHR '':'' (strip s)) = 2"
    and "py_int (split_on CHR '':'' (strip s) ! 0) = Inr hour"
    and "py_int (split_on CHR '':'' (strip s) ! 1) = Inr minute"
    and "\<not> (0 \<le> hour \<and> hour < 24 \<and> 0 \<le> minute \<and> minute < 60) \<or>
         hour * 60 + minute < 0 \<or> 1440 \<le> hour * 60 + minute"
  shows "parse_time s = Inl (ValueError (''Hour or minute out of range: '' @ s))"
proof -
  from assms(4) have "\<not> (0 \<le> hour \<and> hour < 24 \<and> 0 \<le> minute \<and> minute < 60)" by auto
  with assms(1-3) show ?thesis by (simp add: parse_time_def Let_def)
qed

lemma py_int_error: "py_int s = Inl e \<Longrightarrow> \<exists>m. e = ValueError m"
  by (auto simp: py_int_def Let_def split: option.splits if_splits)

lemma parse_time_error: "parse_time s = Inl e \<Longrightarrow> \<exists>m. e = ValueError m"
  by (auto simp: parse_time_def Let_def split: if_splits sum.splits)

lemma parse_flight_line_txt_error:
  "parse_flight_line_txt line = Inl e \<Longrightarrow> \<exists>m. e = ValueError m"
  unfolding parse_flight_line_txt_def Let_def
  by (auto split: if_splits sum.splits dest: py_int_error parse_time_error)

lemma parse_flight_line_txt_times:
  assumes "parse_flight_line_txt line = Inr (Some f)"
  shows "times_valid f"
proof -
  define parts where "parts = split_ws (strip line)"
  from assms obtain d a where
    d: "parse_time (parts ! 3) = Inr d" and a: "parse_time (parts ! 4) = Inr a" and
    lt: "d < a" and f: "depart f = d" "arrive f = a"
    unfolding parse_flight_line_txt_def Let_def parts_def[symmetric]
    by (auto split: if_splits sum.splits)
  from parse_time_range[OF d] parse_time_range[OF a] lt f show ?thesis
    by (simp add: times_valid_def)
qed

lemma load_lines_times:
  "load_lines path n ls acc = Inr fs \<Longrightarrow> list_all times_valid acc \<Longrightarrow> list_all times_valid fs"
proof (induction ls arbitrary: n acc)
  case Nil
  then show ?case by simp
next
  case (Cons l ls)
  show ?case
  proof (cases "parse_flight_line_txt l")
    case (Inl e)
    with Cons.prems(1) show ?thesis by (simp split: error.splits)
  next
    case (Inr r)
    show ?thesis
    proof (cases r)
      case None
      with Inr Cons.prems(1) have "load_lines path (n + 1) ls acc = Inr fs" by simp
      from Cons.IH[OF this Cons.prems(2)] show ?thesis .
    next
      case (Some f)
      with Inr Cons.prems(1) have "load_lines path (n + 1) ls (acc @ [f]) = Inr fs" by simp
      moreover from Inr Some have "times_valid f" by (simp add: parse_flight_line_txt_times)
      ultimately show ?thesis using Cons.IH Cons.prems(2) by simp
    qed
  qed
qed

lemma load_lines_first_error:
  "i < length ls \<Longrightarrow> parse_flight_line_txt (ls ! i) = Inl (ValueError m) \<Longrightarrow>
   (\<forall>j<i. \<not> isl (parse_flight_line_txt (ls ! j))) \<Longrightarrow>
   load_lines path n ls acc = Inl (ValueError (path @ '':'' @ dec_digits (n + i) @ '': '' @ m))"
proof (induction ls arbitrary: i n acc)
  case Nil
  then show ?case by simp
next
  case (Cons l ls)
  show ?case
  proof (cases i)
    case 0
    with Cons.prems(2) show ?thesis by simp
  next
    case (Suc k)
    with Cons.prems have k: "k < length ls" "parse_flight_line_txt (ls ! k) = Inl (ValueError m)"
      and ear: "\<forall>j<k. \<not> isl (parse_flight_line_txt (ls ! j))"
      and hd: "\<not> isl (parse_flight_line_txt l)"
      by auto
    from hd obtain r where r: "parse_flight_line_txt l = Inr r" by (cases "parse_flight_line_txt l") auto
    from Cons.IH[OF k ear, of "n + 1"] r Suc show ?thesis
      by (cases r) simp_all
  qed
qed

lemma late_arrival_rejected:
  assumes "length (split_ws (strip line)) = 8" "\<not> startswith (strip line) ''#''"
    and "parse_time (split_ws (strip line) ! 3) = Inr d"
    and "parse_time (split_ws (strip line) ! 4) = Inr a" and "a \<le> d"
  shows "parse_flight_line_txt line =
           Inl (ValueError (''Arrival must be after departure: '' @ strip line))"
proof -
  from assms(1) have "strip line \<noteq> []" by (auto simp: split_ws_def)
  with assms show ?thesis
    by (simp add: parse_flight_line_txt_def Let_def)
qed

lemma bad_time_rejected:
  assumes "length (split_ws (strip line)) = 8" "\<not> startswith (strip line) ''#''"
    and "parse_time (split_ws (strip line) ! 3) = Inl e \<or>
         (\<not> isl (parse_time (split_ws (strip line) ! 3)) \<and>
          parse_time (split_ws (strip line) ! 4) = Inl e)"
  shows "parse_flight_line_txt line = Inl e"
proof -
  from assms(1) have "strip line \<noteq> []" by (auto simp: split_ws_def)
  with assms show ?thesis
    by (auto simp: parse_flight_line_txt_def Let_def split: sum.splits)
qed

lemma csv_row_flight_times:
  assumes "csv_row_flight row_text row = Inr f"
  shows "times_valid f"
proof -
  from assms obtain d a where
    d: "parse_time_cell (row ''depart'') = Inr d" and a: "parse_time_cell (row ''arrive'') = Inr a" and
    lt: "d < a" and f: "depart f = d" "arrive f = a"
    unfolding csv_row_flight_def
    by (auto split: if_splits sum.splits)
  from d a have "0 \<le> d \<and> d < 1440" "0 \<le> a \<and> a < 1440"
    by (auto simp: parse_time_cell_def split: option.splits dest: parse_time_range)
  with lt f show ?thesis
    by (simp add: times_valid_def)
qed

lemma load_rows_times:
  "load_rows row_text rows acc = Inr fs \<Longrightarrow> list_all times_valid acc \<Longrightarrow>
   list_all times_valid fs"
proof (induction rows arbitrary: acc)
  case Nil
  then show ?case by simp
next
  case (Cons r rows)
  from Cons.prems(1) obtain f where f: "csv_row_flight row_text r = Inr f"
    and rest: "load_rows row_text rows (acc @ [f]) = Inr fs"
    by (auto split: sum.splits)
  from csv_row_flight_times[OF f] Cons.prems(2) Cons.IH[OF rest] show ?case by simp
qed

lemma load_rows_first_error:
  "j < length rows \<Longrightarrow> csv_row_flight row_text (rows ! j) = Inl e \<Longrightarrow>
   (\<forall>k<j. \<not> isl (csv_row_flight row_text (rows ! k))) \<Longrightarrow>
   load_rows row_text rows acc = Inl e"
proof (induction rows arbitrary: j acc)
  case Nil
  then show ?case by simp
next
  case (Cons r rows)
  show ?case
  proof (cases j)
    case 0
    with Cons.prems(2) show ?thesis by simp
  next
    case (Suc k)
    with Cons.prems have k: "k < length rows" "csv_row_flight row_text (rows ! k) = Inl e"
      and ear: "\<forall>i<k. \<not> isl (csv_row_flight row_text (rows ! i))"
      and hd: "\<not> isl (csv_row_flight row_text r)"
      by auto
    from hd obtain f where f: "csv_row_flight row_text r = Inr f"
      by (cases "csv_row_flight row_text r") auto
    from Cons.IH[OF k ear] f show ?thesis by simp
  qed
qed

lemma csv_late_arrival_rejected:
  assumes "parse_time_cell (row ''depart'') = Inr d" "parse_time_cell (row ''arrive'') = Inr a"
    and "a \<le> d"
  shows "csv_row_flight row_text row =
           Inl (ValueError (''Arrival must be after departure: '' @ row_text row))"
  using assms by (simp add: csv_row_flight_def)

lemma csv_bad_time_rejected:
  assumes "parse_time_cell (row ''depart'') = Inl e \<or>
           (\<not> isl (parse_time_cell (row ''depart'')) \<and> parse_time_cell (row ''arrive'') = Inl e)"
  shows "csv_row_flight row_text row = Inl e"
  using assms by (auto simp: csv_row_flight_def split: sum.splits)

section \<open>The heap stays ordered\<close>

lemma parent_less: "0 < i \<Longrightarrow> parent i < i"
  by (simp add: parent_def)

lemma compatD:
  assumes "compat lt key"
  shows "lt x y = Inr True \<Longrightarrow> key x \<le> key y" and "lt x y = Inr False \<Longrightarrow> key y \<le> key x"
  using assms unfolding compat_def by blast+

lemma heap_okD: "heap_ok key h \<Longrightarrow> i < length h \<Longrightarrow> 0 < i \<Longrightarrow> key (h ! parent i) \<le> key (h ! i)"
  unfolding heap_ok_def by blast

lemma sift_invD:
  assumes "sift_inv key g pos"
  shows "pos < length g"
    and "\<And>i. i < length g \<Longrightarrow> 0 < i \<Longrightarrow> i \<noteq> pos \<Longrightarrow> key (g ! parent i) \<le> key (g ! i)"
    and "\<And>i. 0 < pos \<Longrightarrow> i < length g \<Longrightarrow> 0 < i \<Longrightarrow> parent i = pos \<Longrightarrow>
           key (g ! parent pos) \<le> key (g ! i)"
  using assms unfolding sift_inv_def by blast+

lemma heap_ok_root:
  assumes "heap_ok key h" "i < length h"
  shows "key (h ! 0) \<le> key (h ! i)"
  using assms(2)
proof (induction i rule: less_induct)
  case (less i)
  show ?case
  proof (cases "i = 0")
    case True
    then show ?thesis by simp
  next
    case False
    then have p: "parent i < i" by (simp add: parent_less)
    with less.prems have "parent i < length h" by simp
    from less.IH[OF p this] have "key (h ! 0) \<le> key (h ! parent i)" .
    moreover from heap_okD[OF assms(1) less.prems] False
    have "key (h ! parent i) \<le> key (h ! i)" by simp
    ultimately show ?thesis by (rule order_trans)
  qed
qed

lemma siftdown_loop_unfold:
  "siftdown_loop lt h x 0 pos =
     (if 0 < pos then
        (case lt x (h ! parent pos) of
           Inl e \<Rightarrow> Inl e
         | Inr b \<Rightarrow>
             if b then siftdown_loop lt (h[pos := h ! parent pos]) x 0 (parent pos)
             else Inr (h[pos := x]))
      else Inr (h[pos := x]))"
  by (subst siftdown_loop.simps) (simp add: Let_def parent_def split: sum.splits)

lemma sift_inv_heap_ok:
  assumes inv: "sift_inv key g pos"
    and top: "0 < pos \<Longrightarrow> key (g ! parent pos) \<le> key (g ! pos)"
  shows "heap_ok key g"
  unfolding heap_ok_def
proof (intro allI impI)
  fix i assume i: "i < length g" "0 < i"
  show "key (g ! parent i) \<le> key (g ! i)"
  proof (cases "i = pos")
    case True
    with top i show ?thesis by simp
  next
    case False
    with i show ?thesis by (intro sift_invD(2)[OF inv])
  qed
qed

lemma sift_inv_up:
  assumes inv: "sift_inv key (h[pos := x]) pos" and pos: "0 < pos"
    and kx: "key x \<le> key (h ! parent pos)"
  shows "sift_inv key (h[pos := h ! parent pos, parent pos := x]) (parent pos)"
proof -
  let ?pp = "parent pos"
  let ?g = "h[pos := x]"
  let ?g1 = "h[pos := h ! ?pp, ?pp := x]"
  have len: "pos < length h" using sift_invD(1)[OF inv] by simp
  have pp: "?pp < pos" using pos by (rule parent_less)
  have hp: "?g ! ?pp = h ! ?pp" using pp by simp
  have g1pos: "?g1 ! pos = h ! ?pp" using pp len by simp
  have g1pp: "?g1 ! ?pp = x" using pp len by simp
  have g1other: "?g1 ! i = ?g ! i" if "i \<noteq> pos" "i \<noteq> ?pp" for i using that by simp
  have gother: "?g ! i = h ! i" if "i \<noteq> pos" for i using that by simp
  show ?thesis
    unfolding sift_inv_def
  proof (intro conjI allI impI)
    show "?pp < length ?g1" using pp len by simp
  next
    fix i assume i: "i < length ?g1" "0 < i" "i \<noteq> ?pp"
    then have il: "i < length ?g" by simp
    show "key (?g1 ! parent i) \<le> key (?g1 ! i)"
    proof (cases "i = pos")
      case True
      with kx g1pos g1pp show ?thesis by simp
    next
      case inp: False
      have o: "key (?g ! parent i) \<le> key (?g ! i)"
        by (rule sift_invD(2)[OF inv il i(2) inp])
      have gi: "?g1 ! i = ?g ! i" using inp i(3) by (rule g1other)
      show ?thesis
      proof (cases "parent i = pos")
        case True
        have "key (?g ! ?pp) \<le> key (?g ! i)"
          by (rule sift_invD(3)[OF inv pos il i(2) True])
        with True gi hp g1pos show ?thesis by simp
      next
        case pnp: False
        show ?thesis
        proof (cases "parent i = ?pp")
          case True
          from o True hp have "key (h ! ?pp) \<le> key (?g ! i)" by simp
          with kx have "key x \<le> key (?g ! i)" by (rule order_trans)
          with True gi g1pp show ?thesis by simp
        next
          case False
          with pnp have "?g1 ! parent i = ?g ! parent i" by (intro g1other)
          with o gi show ?thesis by simp
        qed
      qed
    qed
  next
    fix i assume pp0: "0 < ?pp" and i: "i < length ?g1" "0 < i" "parent i = ?pp"
    then have il: "i < length ?g" by simp
    let ?gp = "parent ?pp"
    have gpl: "?gp < ?pp" using pp0 by (rule parent_less)
    have g1gp: "?g1 ! ?gp = ?g ! ?gp" using gpl pp by (intro g1other) simp_all
    have ppl: "?pp < length ?g" using pp len by simp
    have o1: "key (?g ! ?gp) \<le> key (?g ! ?pp)"
      by (rule sift_invD(2)[OF inv ppl pp0]) (use pp in simp)
    show "key (?g1 ! ?gp) \<le> key (?g1 ! i)"
    proof (cases "i = pos")
      case True
      with o1 g1gp hp g1pos show ?thesis by simp
    next
      case False
      from i(2,3) have ip: "i \<noteq> ?pp" using parent_less[of i] by auto
      have "key (?g ! parent i) \<le> key (?g ! i)"
        by (rule sift_invD(2)[OF inv il i(2) False])
      with i(3) have "key (?g ! ?pp) \<le> key (?g ! i)" by simp
      with o1 have "key (?g ! ?gp) \<le> key (?g ! i)" by (rule order_trans)
      with g1gp g1other[OF False ip] show ?thesis by simp
    qed
  qed
qed

lemma siftdown_loop_heap_ok:
  assumes c: "compat lt key"
  shows "sift_inv key (h[pos := x]) pos \<Longrightarrow> siftdown_loop lt h x 0 pos = Inr r
           \<Longrightarrow> heap_ok key r"
proof (induction pos arbitrary: h rule: less_induct)
  case (less pos)
  note inv = less.prems(1)
  have len: "pos < length h" using sift_invD(1)[OF inv] by simp
  show ?case
  proof (cases "0 < pos")
    case False
    with less.prems(2) have r: "r = h[pos := x]"
      by (subst (asm) siftdown_loop_unfold) simp
    from False have "heap_ok key (h[pos := x])"
      by (intro sift_inv_heap_ok[OF inv]) simp
    with r show ?thesis by simp
  next
    case pos: True
    let ?pp = "parent pos"
    have pp: "?pp < pos" using pos by (rule parent_less)
    from less.prems(2) pos have eq:
      "(case lt x (h ! ?pp) of Inl e \<Rightarrow> Inl e
        | Inr b \<Rightarrow> if b then siftdown_loop lt (h[pos := h ! ?pp]) x 0 ?pp
                   else Inr (h[pos := x])) = Inr r"
      by (subst (asm) siftdown_loop_unfold) simp
    show ?thesis
    proof (cases "lt x (h ! ?pp)")
      case (Inl e)
      with eq show ?thesis by simp
    next
      case (Inr b)
      show ?thesis
      proof (cases b)
        case True
        with Inr eq have rec: "siftdown_loop lt (h[pos := h ! ?pp]) x 0 ?pp = Inr r" by simp
        from Inr True have "key x \<le> key (h ! ?pp)" by (intro compatD(1)[OF c]) simp
        then have "sift_inv key (h[pos := h ! ?pp, ?pp := x]) ?pp"
          by (rule sift_inv_up[OF inv pos])
        then show ?thesis using rec by (rule less.IH[OF pp])
      next
        case False
        with Inr eq have r: "r = h[pos := x]" by simp
        from Inr False have "key (h ! ?pp) \<le> key x" by (intro compatD(2)[OF c]) simp
        with pp len have "key (h[pos := x] ! ?pp) \<le> key (h[pos := x] ! pos)" by simp
        then have "heap_ok key (h[pos := x])" by (intro sift_inv_heap_ok[OF inv])
        with r show ?thesis by simp
      qed
    qed
  qed
qed

lemma heappush_heap_ok:
  assumes c: "compat lt key" and h: "heap_ok key h" and p: "heappush lt h x = Inr r"
  shows "heap_ok key r"
proof -
  let ?g = "h @ [x]"
  have run: "siftdown_loop lt ?g x 0 (length h) = Inr r"
    using p by (simp add: heappush_def siftdown_def Let_def)
  have g: "?g[length h := x] = ?g" by simp
  have "sift_inv key ?g (length h)"
    unfolding sift_inv_def
  proof (intro conjI allI impI)
    show "length h < length ?g" by simp
  next
    fix i assume i: "i < length ?g" "0 < i" "i \<noteq> length h"
    then have il: "i < length h" by simp
    with i(2) have "parent i < length h" using parent_less[of i] by simp
    with il heap_okD[OF h il i(2)] show "key (?g ! parent i) \<le> key (?g ! i)"
      by (simp add: nth_append)
  next
    fix i assume i: "i < length ?g" "0 < i" "parent i = length h"
    with parent_less[of i] have False by simp
    then show "key (?g ! parent (length h)) \<le> key (?g ! i)" ..
  qed
  with g have "sift_inv key (?g[length h := x]) (length h)" by simp
  then show ?thesis using run by (rule siftdown_loop_heap_ok[OF c])
qed

lemma hole_invD:
  assumes "hole_inv key g pos"
  shows "pos < length g"
    and "\<And>i. i < length g \<Longrightarrow> 0 < i \<Longrightarrow> i \<noteq> pos \<Longrightarrow> parent i \<noteq> pos \<Longrightarrow>
           key (g ! parent i) \<le> key (g ! i)"
    and "\<And>i. 0 < pos \<Longrightarrow> i < length g \<Longrightarrow> 0 < i \<Longrightarrow> parent i = pos \<Longrightarrow>
           key (g ! parent pos) \<le> key (g ! i)"
  using assms unfolding hole_inv_def by blast+

lemma parent_child: "0 < i \<Longrightarrow> parent i = pos \<longleftrightarrow> i = 2 * pos + 1 \<or> i = 2 * pos + 2"
  unfolding parent_def by presburger

lemma siftup_loop_unfold:
  "siftup_loop lt g pos =
     (if 2 * pos + 1 < length g then
        (case (if 2 * pos + 2 < length g
               then (case lt (g ! (2 * pos + 1)) (g ! (2 * pos + 2)) of
                       Inl e \<Rightarrow> Inl e
                     | Inr b \<Rightarrow> Inr (\<not> b))
               else Inr False) of
           Inl e \<Rightarrow> Inl e
         | Inr right \<Rightarrow>
             siftup_loop lt (g[pos := g ! (if right then 2 * pos + 2 else 2 * pos + 1)])
               (if right then 2 * pos + 2 else 2 * pos + 1))
      else Inr (g, pos))"
  by (subst siftup_loop.simps) (simp add: Let_def add.commute split: sum.splits)

lemma hole_step:
  assumes inv: "hole_inv key g pos"
    and c: "c = 2 * pos + 1 \<or> c = 2 * pos + 2" and cl: "c < length g"
    and least: "\<And>i. i < length g \<Longrightarrow> 0 < i \<Longrightarrow> parent i = pos \<Longrightarrow> key (g ! c) \<le> key (g ! i)"
  shows "hole_inv key (g[pos := g ! c]) c"
proof -
  let ?g1 = "g[pos := g ! c]"
  have c0: "0 < c" and pc: "pos < c" using c by auto
  have parc: "parent c = pos" using c c0 by (simp add: parent_child)
  have len: "pos < length g" by (rule hole_invD(1)[OF inv])
  have same: "?g1 ! i = g ! i" if "i \<noteq> pos" for i using that by simp
  have atpos: "?g1 ! pos = g ! c" using len by simp
  show ?thesis
    unfolding hole_inv_def
  proof (intro conjI allI impI)
    show "c < length ?g1" using cl by simp
  next
    fix i assume i: "i < length ?g1" "0 < i" "i \<noteq> c" "parent i \<noteq> c"
    then have il: "i < length g" by simp
    show "key (?g1 ! parent i) \<le> key (?g1 ! i)"
    proof (cases "i = pos")
      case True
      with i(2) have p0: "0 < pos" by simp
      have "parent pos \<noteq> pos" using parent_less[OF p0] by simp
      then have "?g1 ! parent pos = g ! parent pos" by (rule same)
      moreover have "key (g ! parent pos) \<le> key (g ! c)"
        by (rule hole_invD(3)[OF inv p0 cl c0 parc])
      ultimately show ?thesis using True atpos by simp
    next
      case inp: False
      show ?thesis
      proof (cases "parent i = pos")
        case True
        have "key (g ! c) \<le> key (g ! i)" by (rule least[OF il i(2) True])
        with True atpos same[OF inp] show ?thesis by simp
      next
        case False
        have "key (g ! parent i) \<le> key (g ! i)"
          by (rule hole_invD(2)[OF inv il i(2) inp False])
        with same[OF inp] same[OF False] show ?thesis by simp
      qed
    qed
  next
    fix i assume i: "i < length ?g1" "0 < i" "parent i = c"
    then have il: "i < length g" by simp
    from i(2,3) parent_less[of i] pc have ip: "i \<noteq> pos" "i \<noteq> c" by auto
    from i(3) pc have pip: "parent i \<noteq> pos" by simp
    have "key (g ! parent i) \<le> key (g ! i)"
      by (rule hole_invD(2)[OF inv il i(2) ip(1) pip])
    with i(3) parc atpos same[OF ip(1)] show "key (?g1 ! parent c) \<le> key (?g1 ! i)" by simp
  qed
qed

lemma siftup_loop_hole:
  assumes c: "compat lt key"
  shows "hole_inv key g pos \<Longrightarrow> siftup_loop lt g pos = Inr (g', pos')
           \<Longrightarrow> hole_inv key g' pos' \<and> \<not> 2 * pos' + 1 < length g'"
proof (induction "length g - pos" arbitrary: g pos rule: less_induct)
  case less
  note inv = less.prems(1)
  let ?l = "2 * pos + 1" and ?r = "2 * pos + 2"
  show ?case
  proof (cases "?l < length g")
    case False
    with less.prems(2) have "g' = g" "pos' = pos"
      by (subst (asm) siftup_loop_unfold, simp)+
    with False inv show ?thesis by simp
  next
    case l: True
    have step: "hole_inv key g' pos' \<and> \<not> 2 * pos' + 1 < length g'"
      if cc: "c = ?l \<or> c = ?r" and cl: "c < length g"
        and least: "\<And>i. i < length g \<Longrightarrow> 0 < i \<Longrightarrow> parent i = pos \<Longrightarrow> key (g ! c) \<le> key (g ! i)"
        and rec: "siftup_loop lt (g[pos := g ! c]) c = Inr (g', pos')" for c
    proof -
      have h: "hole_inv key (g[pos := g ! c]) c" by (rule hole_step[OF inv cc cl least])
      have m: "length (g[pos := g ! c]) - c < length g - pos" using cc cl by auto
      show ?thesis by (rule less.hyps[OF m h rec])
    qed
    show ?thesis
    proof (cases "?r < length g")
      case False
      with l less.prems(2) have rec: "siftup_loop lt (g[pos := g ! ?l]) ?l = Inr (g', pos')"
        by (subst (asm) siftup_loop_unfold) simp
      have least: "key (g ! ?l) \<le> key (g ! i)" if "i < length g" "0 < i" "parent i = pos" for i
      proof -
        from that(2,3) have "i = ?l \<or> i = ?r" by (simp add: parent_child)
        with that(1) False have "i = ?l" by auto
        then show ?thesis by simp
      qed
      show ?thesis by (rule step[OF _ l least rec]) simp
    next
      case r: True
      note run = less.prems(2)[unfolded siftup_loop_unfold[of lt g pos]]
      show ?thesis
      proof (cases "lt (g ! ?l) (g ! ?r)")
        case (Inl e)
        with run l r show ?thesis by simp
      next
        case (Inr b)
        show ?thesis
        proof (cases b)
          case True
          with Inr run l r have rec: "siftup_loop lt (g[pos := g ! ?l]) ?l = Inr (g', pos')" by simp
          from Inr True have k: "key (g ! ?l) \<le> key (g ! ?r)" by (intro compatD(1)[OF c]) simp
          have least: "key (g ! ?l) \<le> key (g ! i)" if "i < length g" "0 < i" "parent i = pos" for i
          proof -
            from that(2,3) have "i = ?l \<or> i = ?r" by (simp add: parent_child)
            with k show ?thesis by auto
          qed
          show ?thesis by (rule step[OF _ l least rec]) simp
        next
          case False
          with Inr run l r have rec: "siftup_loop lt (g[pos := g ! ?r]) ?r = Inr (g', pos')" by simp
          from Inr False have k: "key (g ! ?r) \<le> key (g ! ?l)" by (intro compatD(2)[OF c]) simp
          have least: "key (g ! ?r) \<le> key (g ! i)" if "i < length g" "0 < i" "parent i = pos" for i
          proof -
            from that(2,3) have "i = ?l \<or> i = ?r" by (simp add: parent_child)
            with k show ?thesis by auto
          qed
          show ?thesis by (rule step[OF _ r least rec]) simp
        qed
      qed
    qed
  qed
qed

lemma hole_leaf:
  assumes inv: "hole_inv key g pos" and leaf: "\<not> 2 * pos + 1 < length g"
  shows "sift_inv key (g[pos := x]) pos"
  unfolding sift_inv_def
proof (intro conjI allI impI)
  show "pos < length (g[pos := x])" using hole_invD(1)[OF inv] by simp
next
  fix i assume i: "i < length (g[pos := x])" "0 < i" "i \<noteq> pos"
  then have il: "i < length g" by simp
  have pip: "parent i \<noteq> pos"
  proof
    assume "parent i = pos"
    with i(2) have "i = 2 * pos + 1 \<or> i = 2 * pos + 2" by (simp add: parent_child)
    with il leaf show False by auto
  qed
  have "key (g ! parent i) \<le> key (g ! i)" by (rule hole_invD(2)[OF inv il i(2,3) pip])
  with i(3) pip show "key (g[pos := x] ! parent i) \<le> key (g[pos := x] ! i)" by simp
next
  fix i assume i: "i < length (g[pos := x])" "0 < i" "parent i = pos"
  then have "i = 2 * pos + 1 \<or> i = 2 * pos + 2" by (simp add: parent_child)
  with i(1) leaf have False by auto
  then show "key (g[pos := x] ! parent pos) \<le> key (g[pos := x] ! i)" ..
qed

lemma siftup_heap_ok:
  assumes c: "compat lt key" and inv: "hole_inv key g 0" and s: "siftup lt g 0 = Inr r"
  shows "heap_ok key r"
proof -
  from s obtain g' pos' where l: "siftup_loop lt g 0 = Inr (g', pos')"
    and d: "siftdown lt (g'[pos' := g ! 0]) 0 pos' = Inr r"
    by (auto simp: siftup_def Let_def split: sum.splits)
  from siftup_loop_hole[OF c inv l] have h: "hole_inv key g' pos'"
    and leaf: "\<not> 2 * pos' + 1 < length g'" by simp_all
  have pl: "pos' < length g'" by (rule hole_invD(1)[OF h])
  from d pl have run: "siftdown_loop lt (g'[pos' := g ! 0]) (g ! 0) 0 pos' = Inr r"
    by (simp add: siftdown_def)
  have "sift_inv key (g'[pos' := g ! 0]) pos'" by (rule hole_leaf[OF h leaf])
  then have "sift_inv key (g'[pos' := g ! 0, pos' := g ! 0]) pos'" by simp
  then show ?thesis using run by (rule siftdown_loop_heap_ok[OF c])
qed

lemma heap_ok_butlast: "heap_ok key h \<Longrightarrow> heap_ok key (butlast h)"
  unfolding heap_ok_def
proof (intro allI impI)
  fix i assume a: "\<forall>i<length h. 0 < i \<longrightarrow> key (h ! parent i) \<le> key (h ! i)"
    and i: "i < length (butlast h)" "0 < i"
  then have il: "i < length h" by simp
  from i parent_less[of i] have "parent i < length (butlast h)" by simp
  with a il i show "key (butlast h ! parent i) \<le> key (butlast h ! i)"
    by (simp add: nth_butlast)
qed

lemma heappop_heap_ok:
  assumes c: "compat lt key" and h: "heap_ok key h" and p: "heappop lt h = Inr (x, r)"
  shows "heap_ok key r" and "\<forall>e\<in>set h. key x \<le> key e"
proof -
  from p have ne: "h \<noteq> []" by (auto simp: heappop_def)
  let ?bl = "butlast h"
  have blok: "heap_ok key ?bl" by (rule heap_ok_butlast[OF h])
  have x: "x = h ! 0"
  proof (cases "?bl = []")
    case True
    with p ne have "x = last h" by (simp add: heappop_def Let_def)
    moreover from True ne have "length h = 1" by (cases h) (auto split: if_splits)
    ultimately show ?thesis using ne by (simp add: last_conv_nth)
  next
    case False
    with p ne have "x = ?bl ! 0" by (auto simp: heappop_def Let_def split: sum.splits)
    moreover from False have "0 < length ?bl" by (simp del: length_butlast)
    ultimately show ?thesis by (simp add: nth_butlast del: length_butlast)
  qed
  show "\<forall>e\<in>set h. key x \<le> key e"
  proof
    fix e assume "e \<in> set h"
    then obtain i where "i < length h" "h ! i = e" by (auto simp: in_set_conv_nth)
    with heap_ok_root[OF h, of i] x show "key x \<le> key e" by simp
  qed
  show "heap_ok key r"
  proof (cases "?bl = []")
    case True
    with p ne have "r = []" by (simp add: heappop_def Let_def)
    then show ?thesis by (simp add: heap_ok_def)
  next
    case False
    with p ne have s: "siftup lt (?bl[0 := last h]) 0 = Inr r"
      by (auto simp: heappop_def Let_def split: sum.splits)
    have "hole_inv key (?bl[0 := last h]) 0"
      unfolding hole_inv_def
    proof (intro conjI allI impI)
      from False have "0 < length ?bl" by (simp del: length_butlast)
      then show "0 < length (?bl[0 := last h])" by (simp del: length_butlast)
    next
      fix i assume i: "i < length (?bl[0 := last h])" "0 < i" "i \<noteq> 0" "parent i \<noteq> 0"
      then have "i < length ?bl" by simp
      from heap_okD[OF blok this i(2)] i(3,4)
      show "key (?bl[0 := last h] ! parent i) \<le> key (?bl[0 := last h] ! i)" by simp
    next
      fix i assume "(0::nat) < 0"
      then show "key (?bl[0 := last h] ! parent 0) \<le> key (?bl[0 := last h] ! i)" by simp
    qed
    then show ?thesis using s by (rule siftup_heap_ok[OF c])
  qed
qed

section \<open>The loops and what they expand\<close>

lemma outcome_simps:
  "outcome (Inl e) = Inl e" "outcome (Inr (h, r)) = Inr r"
  by (simp_all add: outcome_def)

lemma earliest_run_follows_loop:
  assumes "earliest_loop graph dst heap visited = Some r"
  shows "\<exists>xs q. earliest_run graph dst heap visited acc = Some (xs, q) \<and> outcome q = r"
  using assms
proof (induction graph dst heap visited r arbitrary: acc
        rule: earliest_loop.raw_induct[rotated 1, consumes 1, case_names step])
  case (step loop graph dst heap visited r)
  note eq = step.hyps(1)
  show ?case
  proof (cases "heap = []")
    case True
    with eq show ?thesis by (subst earliest_run.simps) (auto simp: outcome_simps)
  next
    case ne: False
    show ?thesis
    proof (cases "heappop estate_lt heap")
      case (Inl e)
      with eq ne show ?thesis by (subst earliest_run.simps) (auto simp: outcome_simps)
    next
      case (Inr xh)
      obtain t a p heap1 where xh: "xh = ((t, a, p), heap1)" by (metis prod_cases3 surj_pair)
      note pop = Inr[unfolded xh]
      show ?thesis
      proof (cases "a = dst \<and> p \<noteq> []")
        case True
        with eq ne pop show ?thesis by (subst earliest_run.simps) (auto simp: outcome_simps)
      next
        case False
        show ?thesis
        proof (cases "case visited a of None \<Rightarrow> False | Some v \<Rightarrow> v \<le> t")
          case True
          with eq ne pop False have "loop graph dst heap1 visited = Some r" by simp
          from step.IH[OF this, of acc] obtain xs q where
            "earliest_run graph dst heap1 visited acc = Some (xs, q)" "outcome q = r" by blast
          with ne pop False True show ?thesis by (subst earliest_run.simps) auto
        next
          case nv: False
          show ?thesis
          proof (cases "push_earliest t p (graph_get graph a) heap1")
            case (Inl e)
            with eq ne pop False nv show ?thesis
              by (subst earliest_run.simps) (auto simp: outcome_simps)
          next
            case (Inr heap2)
            with eq ne pop False nv
            have "loop graph dst heap2 (visited(a \<mapsto> t)) = Some r" by simp
            from step.IH[OF this, of "acc @ [a]"] obtain xs q where
              "earliest_run graph dst heap2 (visited(a \<mapsto> t)) (acc @ [a]) = Some (xs, q)"
              "outcome q = r"
              by blast
            with ne pop False nv Inr show ?thesis by (subst earliest_run.simps) auto
          qed
        qed
      qed
    qed
  qed
qed

lemma cheapest_run_follows_loop:
  assumes "cheapest_loop graph dst cabin heap visited = Some r"
  shows "\<exists>xs q. cheapest_run graph dst cabin heap visited acc = Some (xs, q) \<and> outcome q = r"
  using assms
proof (induction graph dst cabin heap visited r arbitrary: acc
        rule: cheapest_loop.raw_induct[rotated 1, consumes 1, case_names step])
  case (step loop graph dst cabin heap visited r)
  note eq = step.hyps(1)
  show ?case
  proof (cases "heap = []")
    case True
    with eq show ?thesis by (subst cheapest_run.simps) (auto simp: outcome_simps)
  next
    case ne: False
    show ?thesis
    proof (cases "heappop cstate_lt heap")
      case (Inl e)
      with eq ne show ?thesis by (subst cheapest_run.simps) (auto simp: outcome_simps)
    next
      case (Inr xh)
      obtain c t a p heap1 where xh: "xh = ((c, t, a, p), heap1)"
        by (metis prod_cases3 surj_pair)
      note pop = Inr[unfolded xh]
      show ?thesis
      proof (cases "a = dst \<and> p \<noteq> []")
        case True
        with eq ne pop show ?thesis by (subst cheapest_run.simps) (auto simp: outcome_simps)
      next
        case False
        show ?thesis
        proof (cases "case visited a of None \<Rightarrow> False | Some v \<Rightarrow> v \<le> c")
          case True
          with eq ne pop False have "loop graph dst cabin heap1 visited = Some r" by simp
          from step.IH[OF this, of acc] obtain xs q where
            "cheapest_run graph dst cabin heap1 visited acc = Some (xs, q)" "outcome q = r"
            by blast
          with ne pop False True show ?thesis by (subst cheapest_run.simps) auto
        next
          case nv: False
          show ?thesis
          proof (cases "push_cheapest cabin c t p (graph_get graph a) heap1")
            case (Inl e)
            with eq ne pop False nv show ?thesis
              by (subst cheapest_run.simps) (auto simp: outcome_simps)
          next
            case (Inr heap2)
            with eq ne pop False nv
            have "loop graph dst cabin heap2 (visited(a \<mapsto> c)) = Some r" by simp
            from step.IH[OF this, of "acc @ [a]"] obtain xs q where
              "cheapest_run graph dst cabin heap2 (visited(a \<mapsto> c)) (acc @ [a]) = Some (xs, q)"
              "outcome q = r"
              by blast
            with ne pop False nv Inr show ?thesis by (subst cheapest_run.simps) auto
          qed
        qed
      qed
    qed
  qed
qed

lemma compat_estate: "compat estate_lt fst"
  unfolding compat_def by (auto split: if_splits)

lemma compat_cstate: "compat cstate_lt fst"
  unfolding compat_def by (auto split: if_splits)

lemma push_earliest_keys:
  assumes fs: "\<forall>f\<in>set fs. depart f \<le> arrive f"
  shows "heap_ok fst heap \<Longrightarrow> push_earliest t path fs heap = Inr heap' \<Longrightarrow>
         heap_ok fst heap' \<and> (\<forall>e\<in>set heap'. e \<in> set heap \<or> t \<le> fst e)"
  using fs
proof (induction fs arbitrary: heap)
  case Nil
  then show ?case by simp
next
  case (Cons f fs)
  from Cons.prems(3) have fs: "\<forall>f\<in>set fs. depart f \<le> arrive f"
    and f: "depart f \<le> arrive f" by simp_all
  show ?case
  proof (cases "departs_ok t path f")
    case False
    with Cons.prems(2) have "push_earliest t path fs heap = Inr heap'"
      by (simp add: departs_ok_def Let_def)
    from Cons.IH[OF Cons.prems(1) this fs] show ?thesis .
  next
    case True
    with Cons.prems(2) obtain h1 where
      h1: "heappush estate_lt heap (arrive f, dest f, path @ [f]) = Inr h1" and
      r: "push_earliest t path fs h1 = Inr heap'"
      by (auto simp: departs_ok_def Let_def split: sum.splits if_splits)
    have ok1: "heap_ok fst h1" by (rule heappush_heap_ok[OF compat_estate Cons.prems(1) h1])
    from heappush_mset[OF h1] have "set_mset (mset h1) = set_mset (add_mset (arrive f, dest f, path @ [f]) (mset heap))"
      by simp
    then have s1: "set h1 = insert (arrive f, dest f, path @ [f]) (set heap)" by simp
    from True have "t \<le> depart f" by (rule departs_ok_le)
    with f have tle: "t \<le> arrive f" by simp
    from Cons.IH[OF ok1 r fs] s1 tle show ?thesis by auto
  qed
qed

lemma push_cheapest_keys:
  assumes fs: "\<forall>f\<in>set fs. \<forall>p. price_for f cabin = Inr p \<longrightarrow> 0 \<le> p"
  shows "heap_ok fst heap \<Longrightarrow> push_cheapest cabin tot t path fs heap = Inr heap' \<Longrightarrow>
         heap_ok fst heap' \<and> (\<forall>e\<in>set heap'. e \<in> set heap \<or> tot \<le> fst e)"
  using fs
proof (induction fs arbitrary: heap)
  case Nil
  then show ?case by simp
next
  case (Cons f fs)
  from Cons.prems(3) have fs: "\<forall>f\<in>set fs. \<forall>p. price_for f cabin = Inr p \<longrightarrow> 0 \<le> p"
    and f: "\<And>p. price_for f cabin = Inr p \<Longrightarrow> 0 \<le> p" by simp_all
  show ?case
  proof (cases "departs_ok t path f")
    case False
    with Cons.prems(2) have "push_cheapest cabin tot t path fs heap = Inr heap'"
      by (simp add: departs_ok_def Let_def)
    from Cons.IH[OF Cons.prems(1) this fs] show ?thesis .
  next
    case True
    with Cons.prems(2) obtain p h1 where
      p: "price_for f cabin = Inr p" and
      h1: "heappush cstate_lt heap (tot + p, arrive f, dest f, path @ [f]) = Inr h1" and
      r: "push_cheapest cabin tot t path fs h1 = Inr heap'"
      by (auto simp: departs_ok_def Let_def split: sum.splits if_splits)
    have ok1: "heap_ok fst h1" by (rule heappush_heap_ok[OF compat_cstate Cons.prems(1) h1])
    from heappush_mset[OF h1]
    have "set_mset (mset h1) = set_mset (add_mset (tot + p, arrive f, dest f, path @ [f]) (mset heap))"
      by simp
    then have s1: "set h1 = insert (tot + p, arrive f, dest f, path @ [f]) (set heap)" by simp
    from f[OF p] have tle: "tot \<le> tot + p" by simp
    from Cons.IH[OF ok1 r fs] s1 tle show ?thesis by auto
  qed
qed

section \<open>No airport is expanded twice when keys do not fall\<close>

lemma settled_pop:
  assumes s: "settled key heap visited acc" and c: "compat lt key"
    and p: "heappop lt heap = Inr (x, heap1)"
  shows "settled key heap1 visited acc"
    and "\<forall>e\<in>set heap1. key x \<le> key e"
    and "\<And>a v. visited a = Some v \<Longrightarrow> v \<le> key x"
proof -
  from s have ok: "heap_ok key heap" by (simp add: settled_def)
  note sub = heappop_set[OF p]
  from heappop_heap_ok[OF c ok p] have ok1: "heap_ok key heap1"
    and least: "\<forall>e\<in>set heap. key x \<le> key e" by simp_all
  from least sub(2) show "\<forall>e\<in>set heap1. key x \<le> key e" by blast
  from s sub(1) show "\<And>a v. visited a = Some v \<Longrightarrow> v \<le> key x"
    unfolding settled_def by blast
  from s sub(2) ok1 show "settled key heap1 visited acc"
    unfolding settled_def by blast
qed

lemma settled_expand:
  assumes s: "settled key heap1 visited acc"
    and least: "\<forall>e\<in>set heap1. k \<le> key e"
    and vis: "\<And>b v. visited b = Some v \<Longrightarrow> v \<le> k"
    and new: "\<not> (case visited a of None \<Rightarrow> False | Some v \<Rightarrow> v \<le> k)"
    and ok2: "heap_ok key heap2"
    and keys: "\<forall>e\<in>set heap2. e \<in> set heap1 \<or> k \<le> key e"
  shows "settled key heap2 (visited(a \<mapsto> k)) (acc @ [a])"
proof -
  from new vis have none: "visited a = None" by (cases "visited a") auto
  from s have d: "distinct acc" and sub: "set acc \<subseteq> dom visited" by (simp_all add: settled_def)
  from none sub have "a \<notin> set acc" by auto
  with d have d': "distinct (acc @ [a])" by simp
  from sub have sub': "set (acc @ [a]) \<subseteq> dom (visited(a \<mapsto> k))" by auto
  have low: "v \<le> key e" if "(visited(a \<mapsto> k)) b = Some v" "e \<in> set heap2" for b v e
  proof -
    from that(1) vis have "v \<le> k" by (cases "b = a") auto
    moreover from that(2) keys least have "k \<le> key e" by blast
    ultimately show ?thesis by simp
  qed
  from ok2 d' sub' low show ?thesis unfolding settled_def by blast
qed

lemma settled_new_airport:
  assumes s: "settled key heap1 visited acc"
    and vis: "\<And>b v. visited b = Some v \<Longrightarrow> v \<le> k"
    and new: "\<not> (case visited a of None \<Rightarrow> False | Some v \<Rightarrow> v \<le> k)"
  shows "distinct (acc @ [a])"
proof -
  from new vis have none: "visited a = None" by (cases "visited a") auto
  from s have d: "distinct acc" and sub: "set acc \<subseteq> dom visited" by (simp_all add: settled_def)
  from none sub have "a \<notin> set acc" by auto
  with d show ?thesis by simp
qed

lemma earliest_run_distinct:
  assumes "earliest_run graph dst heap visited acc = Some res"
  shows "\<forall>a. \<forall>f\<in>set (graph_get graph a). depart f \<le> arrive f \<Longrightarrow>
         settled fst heap visited acc \<Longrightarrow> distinct (fst res)"
  using assms
proof (induction graph dst heap visited acc res
        rule: earliest_run.raw_induct[rotated 1, consumes 1, case_names step])
  case (step run graph dst heap visited acc res)
  note eq = step.hyps(1)
  note g = step.prems(1)
  note s = step.prems(2)
  from s have dacc: "distinct acc" by (simp add: settled_def)
  show ?case
  proof (cases "heap = []")
    case True
    with eq dacc show ?thesis by auto
  next
    case ne: False
    show ?thesis
    proof (cases "heappop estate_lt heap")
      case (Inl e)
      with eq ne dacc show ?thesis by auto
    next
      case (Inr xh)
      obtain t a p heap1 where xh: "xh = ((t, a, p), heap1)" by (metis prod_cases3 surj_pair)
      note pop = Inr[unfolded xh]
      note sp = settled_pop[OF s compat_estate pop, simplified]
      show ?thesis
      proof (cases "a = dst \<and> p \<noteq> []")
        case True
        with eq ne pop dacc show ?thesis by auto
      next
        case False
        show ?thesis
        proof (cases "case visited a of None \<Rightarrow> False | Some v \<Rightarrow> v \<le> t")
          case True
          with eq ne pop False have "run graph dst heap1 visited acc = Some res" by simp
          from step.IH[OF this g sp(1)] show ?thesis .
        next
          case nv: False
          have d': "distinct (acc @ [a])" by (rule settled_new_airport[OF sp(1) sp(3) nv])
          show ?thesis
          proof (cases "push_earliest t p (graph_get graph a) heap1")
            case (Inl e)
            with eq ne pop False nv have "res = (acc @ [a], Inl e)" by simp
            with d' show ?thesis by simp
          next
            case (Inr heap2)
            with eq ne pop False nv
            have r: "run graph dst heap2 (visited(a \<mapsto> t)) (acc @ [a]) = Some res" by simp
            from g have ga: "\<forall>f\<in>set (graph_get graph a). depart f \<le> arrive f" by blast
            from s sp(1) have ok1: "heap_ok fst heap1" by (simp add: settled_def)
            from push_earliest_keys[OF ga ok1 Inr]
            have ok2: "heap_ok fst heap2"
              and keys: "\<forall>e\<in>set heap2. e \<in> set heap1 \<or> t \<le> fst e" by simp_all
            have "settled fst heap2 (visited(a \<mapsto> t)) (acc @ [a])"
              by (rule settled_expand[OF sp(1) _ sp(3) nv ok2 keys]) (use sp(2) in auto)
            from step.IH[OF r g this] show ?thesis .
          qed
        qed
      qed
    qed
  qed
qed

lemma cheapest_run_distinct:
  assumes "cheapest_run graph dst cabin heap visited acc = Some res"
  shows "\<forall>a. \<forall>f\<in>set (graph_get graph a). \<forall>p. price_for f cabin = Inr p \<longrightarrow> 0 \<le> p \<Longrightarrow>
         settled fst heap visited acc \<Longrightarrow> distinct (fst res)"
  using assms
proof (induction graph dst cabin heap visited acc res
        rule: cheapest_run.raw_induct[rotated 1, consumes 1, case_names step])
  case (step run graph dst cabin heap visited acc res)
  note eq = step.hyps(1)
  note g = step.prems(1)
  note s = step.prems(2)
  from s have dacc: "distinct acc" by (simp add: settled_def)
  show ?case
  proof (cases "heap = []")
    case True
    with eq dacc show ?thesis by auto
  next
    case ne: False
    show ?thesis
    proof (cases "heappop cstate_lt heap")
      case (Inl e)
      with eq ne dacc show ?thesis by auto
    next
      case (Inr xh)
      obtain c t a p heap1 where xh: "xh = ((c, t, a, p), heap1)"
        by (metis prod_cases3 surj_pair)
      note pop = Inr[unfolded xh]
      note sp = settled_pop[OF s compat_cstate pop, simplified]
      show ?thesis
      proof (cases "a = dst \<and> p \<noteq> []")
        case True
        with eq ne pop dacc show ?thesis by auto
      next
        case False
        show ?thesis
        proof (cases "case visited a of None \<Rightarrow> False | Some v \<Rightarrow> v \<le> c")
          case True
          with eq ne pop False have "run graph dst cabin heap1 visited acc = Some res" by simp
          from step.IH[OF this g sp(1)] show ?thesis .
        next
          case nv: False
          have d': "distinct (acc @ [a])" by (rule settled_new_airport[OF sp(1) sp(3) nv])
          show ?thesis
          proof (cases "push_cheapest cabin c t p (graph_get graph a) heap1")
            case (Inl e)
            with eq ne pop False nv have "res = (acc @ [a], Inl e)" by simp
            with d' show ?thesis by simp
          next
            case (Inr heap2)
            with eq ne pop False nv
            have r: "run graph dst cabin heap2 (visited(a \<mapsto> c)) (acc @ [a]) = Some res"
              by simp
            from g have ga: "\<forall>f\<in>set (graph_get graph a). \<forall>p. price_for f cabin = Inr p \<longrightarrow> 0 \<le> p"
              by blast
            from s sp(1) have ok1: "heap_ok fst heap1" by (simp add: settled_def)
            from push_cheapest_keys[OF ga ok1 Inr]
            have ok2: "heap_ok fst heap2"
              and keys: "\<forall>e\<in>set heap2. e \<in> set heap1 \<or> c \<le> fst e" by simp_all
            have "settled fst heap2 (visited(a \<mapsto> c)) (acc @ [a])"
              by (rule settled_expand[OF sp(1) _ sp(3) nv ok2 keys]) (use sp(2) in auto)
            from step.IH[OF r g this] show ?thesis .
          qed
        qed
      qed
    qed
  qed
qed

lemma earliest_run_exhausted:
  assumes "earliest_run graph dst heap visited acc = Some res"
  shows "snd res = Inr (rest, None) \<Longrightarrow> rest = []"
  using assms
proof (induction graph dst heap visited acc res
        rule: earliest_run.raw_induct[rotated 1, consumes 1, case_names step])
  case (step run graph dst heap visited acc res)
  from step.hyps(1) step.prems step.IH show ?case
    by (auto split: if_splits sum.splits prod.splits)
qed

lemma cheapest_run_exhausted:
  assumes "cheapest_run graph dst cabin heap visited acc = Some res"
  shows "snd res = Inr (rest, None) \<Longrightarrow> rest = []"
  using assms
proof (induction graph dst cabin heap visited acc res
        rule: cheapest_run.raw_induct[rotated 1, consumes 1, case_names step])
  case (step run graph dst cabin heap visited acc res)
  from step.hyps(1) step.prems step.IH show ?case
    by (auto split: if_splits sum.splits prod.splits)
qed

lemma settled_initial: "settled key [x] Map.empty []"
  by (simp add: settled_def heap_ok_def)

section \<open>The searches return\<close>

lemma sum_list_less:
  fixes g h :: "'a \<Rightarrow> nat"
  shows "x \<in> set xs \<Longrightarrow> g x < h x \<Longrightarrow> \<forall>y\<in>set xs. g y \<le> h y \<Longrightarrow>
         sum_list (map g xs) < sum_list (map h xs)"
proof (induction xs)
  case Nil
  then show ?case by simp
next
  case (Cons y ys)
  from Cons.prems(3) have le: "sum_list (map g ys) \<le> sum_list (map h ys)"
    by (intro sum_list_mono) simp
  show ?case
  proof (cases "x = y")
    case True
    with Cons.prems(2) le show ?thesis by simp
  next
    case False
    with Cons.prems have "sum_list (map g ys) < sum_list (map h ys)"
      by (intro Cons.IH) simp_all
    moreover from Cons.prems(3) have "g y \<le> h y" by simp
    ultimately show ?thesis by simp
  qed
qed

lemma unsettled_less:
  assumes t: "t \<in> set ts"
    and new: "\<not> (case visited a of None \<Rightarrow> False | Some v \<Rightarrow> v \<le> t)"
  shows "unsettled ts (visited(a \<mapsto> t)) a < unsettled ts visited a"
proof (cases "visited a")
  case None
  have "length (filter (\<lambda>x. x < t) ts) \<le> length ts" by (rule length_filter_le)
  with None show ?thesis by (simp add: unsettled_def less_Suc_eq_le)
next
  case (Some v)
  with new have tv: "t < v" by simp
  let ?Q = "\<lambda>x. x < v" and ?P = "\<lambda>x. x < t"
  have "filter ?P (filter ?Q ts) = filter ?P ts"
    using tv by (auto intro: filter_cong)
  moreover have "length (filter ?P (filter ?Q ts)) < length (filter ?Q ts)"
    by (rule length_filter_less[of t]) (use t tv in auto)
  ultimately show ?thesis using Some by (simp add: unsettled_def)
qed

lemma potential_less:
  assumes a: "a \<in> set as"
    and less: "unsettled ts (visited(a \<mapsto> t)) a < unsettled ts visited a"
  shows "potential ts as (visited(a \<mapsto> t)) < potential ts as visited"
  unfolding potential_def
proof (rule sum_list_less[where g = "unsettled ts (visited(a \<mapsto> t))"
          and h = "unsettled ts visited", OF a less], rule ballI)
  fix b assume "b \<in> set as"
  show "unsettled ts (visited(a \<mapsto> t)) b \<le> unsettled ts visited b"
  proof (cases "b = a")
    case True
    with less show ?thesis by simp
  next
    case False
    then show ?thesis by (simp add: unsettled_def)
  qed
qed

lemma measure_step:
  fixes p p' :: nat
  assumes "p' < p" "l2 \<le> l1 + n"
  shows "p' * Suc n + l2 < p * Suc n + Suc l1"
proof -
  from assms(1) have "Suc p' * Suc n \<le> p * Suc n" by (intro mult_le_mono1) simp
  with assms(2) show ?thesis by simp
qed

lemma heappop_length:
  assumes "heappop lt heap = Inr (x, h')"
  shows "length heap = Suc (length h')"
proof -
  from heappop_mset[OF assms] have "size (mset heap) = size (add_mset x (mset h'))" by simp
  then show ?thesis by simp
qed

lemma push_earliest_length:
  assumes "push_earliest t p (graph_get graph a) heap1 = Inr heap2"
    and len: "length (graph_get graph a) \<le> n"
  shows "length heap2 \<le> length heap1 + n"
proof -
  let ?new = "filter (departs_ok t p) (graph_get graph a)"
  from push_earliest_mset[OF assms(1)]
  have "mset heap2 = mset (heap1 @ map (\<lambda>f. (arrive f, dest f, p @ [f])) ?new)" by simp
  then have "length heap2 = length (heap1 @ map (\<lambda>f. (arrive f, dest f, p @ [f])) ?new)"
    by (rule mset_eq_length)
  then have "length heap2 = length heap1 + length ?new" by simp
  moreover have "length ?new \<le> length (graph_get graph a)" by (rule length_filter_le)
  ultimately show ?thesis using len by linarith
qed

lemma push_earliest_range:
  assumes push: "push_earliest t p (graph_get graph a) heap1 = Inr heap2"
    and ts: "arrive ` set (graph_get graph a) \<subseteq> set ts"
    and as: "dest ` set (graph_get graph a) \<subseteq> set as"
    and h1: "\<forall>e\<in>set heap1. fst e \<in> set ts \<and> fst (snd e) \<in> set as"
  shows "\<forall>e\<in>set heap2. fst e \<in> set ts \<and> fst (snd e) \<in> set as"
proof
  fix e assume e: "e \<in> set heap2"
  let ?new = "filter (departs_ok t p) (graph_get graph a)"
  from push_earliest_mset[OF push]
  have "set_mset (mset heap2) =
          set_mset (mset heap1 + mset (map (\<lambda>f. (arrive f, dest f, p @ [f])) ?new))"
    by simp
  then have "set heap2 = set heap1 \<union> (\<lambda>f. (arrive f, dest f, p @ [f])) ` set ?new" by simp
  with e consider "e \<in> set heap1" | f where "f \<in> set ?new" "e = (arrive f, dest f, p @ [f])"
    by auto
  then show "fst e \<in> set ts \<and> fst (snd e) \<in> set as"
  proof cases
    case 1
    with h1 show ?thesis by blast
  next
    case 2
    from 2(1) have "f \<in> set (graph_get graph a)" by simp
    with ts as 2(2) show ?thesis by auto
  qed
qed

lemma earliest_loop_returns:
  assumes ts: "\<And>a. arrive ` set (graph_get graph a) \<subseteq> set ts"
    and as: "\<And>a. dest ` set (graph_get graph a) \<subseteq> set as"
    and bound: "\<And>a. length (graph_get graph a) \<le> n"
  shows "\<forall>e\<in>set heap. fst e \<in> set ts \<and> fst (snd e) \<in> set as \<Longrightarrow>
         \<exists>r. earliest_loop graph dst heap visited = Some r"
proof (induction "potential ts as visited * Suc n + length heap"
        arbitrary: heap visited rule: less_induct)
  case less
  note range = less.prems
  show ?case
  proof (cases "heap = []")
    case True
    then show ?thesis by (subst earliest_loop.simps) simp
  next
    case ne: False
    show ?thesis
    proof (cases "heappop estate_lt heap")
      case (Inl e)
      with ne show ?thesis by (subst earliest_loop.simps) simp
    next
      case (Inr xh)
      obtain t a p heap1 where xh: "xh = ((t, a, p), heap1)" by (metis prod_cases3 surj_pair)
      note pop = Inr[unfolded xh]
      note len = heappop_length[OF pop]
      from heappop_set[OF pop] range have inr: "t \<in> set ts" "a \<in> set as"
        and range1: "\<forall>e\<in>set heap1. fst e \<in> set ts \<and> fst (snd e) \<in> set as"
        by auto
      show ?thesis
      proof (cases "a = dst \<and> p \<noteq> []")
        case True
        with ne pop show ?thesis by (subst earliest_loop.simps) simp
      next
        case False
        show ?thesis
        proof (cases "case visited a of None \<Rightarrow> False | Some v \<Rightarrow> v \<le> t")
          case True
          have "potential ts as visited * Suc n + length heap1
                  < potential ts as visited * Suc n + length heap"
            using len by simp
          from less.hyps[OF this range1] obtain r where
            "earliest_loop graph dst heap1 visited = Some r" by blast
          with ne pop False True show ?thesis by (subst earliest_loop.simps) simp
        next
          case nv: False
          show ?thesis
          proof (cases "push_earliest t p (graph_get graph a) heap1")
            case (Inl e)
            with ne pop False nv show ?thesis by (subst earliest_loop.simps) simp
          next
            case (Inr heap2)
            have "potential ts as (visited(a \<mapsto> t)) < potential ts as visited"
              by (rule potential_less[OF inr(2) unsettled_less[of t ts visited a, OF inr(1) nv]])
            then have "potential ts as (visited(a \<mapsto> t)) * Suc n + length heap2
                  < potential ts as visited * Suc n + Suc (length heap1)"
              using push_earliest_length[OF Inr bound] by (rule measure_step)
            then have m: "potential ts as (visited(a \<mapsto> t)) * Suc n + length heap2
                  < potential ts as visited * Suc n + length heap"
              using len by simp
            from less.hyps[OF m push_earliest_range[OF Inr ts as range1]] obtain r where
              "earliest_loop graph dst heap2 (visited(a \<mapsto> t)) = Some r" by blast
            with ne pop False nv Inr show ?thesis by (subst earliest_loop.simps) simp
          qed
        qed
      qed
    qed
  qed
qed

lemma settled_forget: "settled key heap visited acc \<Longrightarrow> settled key heap visited []"
  by (simp add: settled_def)

lemma unsettled_first:
  assumes "visited a = None"
  shows "unsettled [] (visited(a \<mapsto> c)) a < unsettled [] visited a"
  using assms by (simp add: unsettled_def)

lemma push_cheapest_length:
  assumes "push_cheapest cabin c t p (graph_get graph a) heap1 = Inr heap2"
    and len: "length (graph_get graph a) \<le> n"
  shows "length heap2 \<le> length heap1 + n"
proof -
  let ?new = "filter (departs_ok t p) (graph_get graph a)"
  let ?F = "\<lambda>(f, q). (c + q, arrive f, dest f, p @ [f])"
  from push_cheapest_mset[OF assms(1)] obtain ps where
    l: "length ps = length ?new" and
    ps: "mset heap2 = mset heap1 + mset (map ?F (zip ?new ps))"
    by blast
  from ps have "mset heap2 = mset (heap1 @ map ?F (zip ?new ps))" by simp
  then have "length heap2 = length (heap1 @ map ?F (zip ?new ps))" by (rule mset_eq_length)
  with l have "length heap2 = length heap1 + length ?new" by simp
  moreover have "length ?new \<le> length (graph_get graph a)" by (rule length_filter_le)
  ultimately show ?thesis using len by linarith
qed

lemma push_cheapest_range:
  assumes push: "push_cheapest cabin c t p (graph_get graph a) heap1 = Inr heap2"
    and as: "dest ` set (graph_get graph a) \<subseteq> set as"
    and h1: "\<forall>e\<in>set heap1. fst (snd (snd e)) \<in> set as"
  shows "\<forall>e\<in>set heap2. fst (snd (snd e)) \<in> set as"
proof
  fix e assume e: "e \<in> set heap2"
  let ?new = "filter (departs_ok t p) (graph_get graph a)"
  let ?F = "\<lambda>(f, q). (c + q, arrive f, dest f, p @ [f])"
  from push_cheapest_mset[OF push] obtain ps where
    ps: "mset heap2 = mset heap1 + mset (map ?F (zip ?new ps))"
    by blast
  then have "set_mset (mset heap2) = set_mset (mset heap1 + mset (map ?F (zip ?new ps)))"
    by simp
  then have "set heap2 = set heap1 \<union> ?F ` set (zip ?new ps)" by simp
  with e consider "e \<in> set heap1"
    | f q where "(f, q) \<in> set (zip ?new ps)" "e = (c + q, arrive f, dest f, p @ [f])"
    by auto
  then show "fst (snd (snd e)) \<in> set as"
  proof cases
    case 1
    with h1 show ?thesis by blast
  next
    case 2
    from 2(1) have "f \<in> set ?new" by (rule set_zip_leftD)
    then have "f \<in> set (graph_get graph a)" by simp
    with as 2(2) show ?thesis by auto
  qed
qed

lemma cheapest_loop_returns:
  assumes as: "\<And>a. dest ` set (graph_get graph a) \<subseteq> set as"
    and bound: "\<And>a. length (graph_get graph a) \<le> n"
    and nonneg: "\<forall>a. \<forall>f\<in>set (graph_get graph a). \<forall>p. price_for f cabin = Inr p \<longrightarrow> 0 \<le> p"
  shows "settled fst heap visited [] \<Longrightarrow> \<forall>e\<in>set heap. fst (snd (snd e)) \<in> set as \<Longrightarrow>
         \<exists>r. cheapest_loop graph dst cabin heap visited = Some r"
proof (induction "potential [] as visited * Suc n + length heap"
        arbitrary: heap visited rule: less_induct)
  case less
  note s = less.prems(1)
  note range = less.prems(2)
  show ?case
  proof (cases "heap = []")
    case True
    then show ?thesis by (subst cheapest_loop.simps) simp
  next
    case ne: False
    show ?thesis
    proof (cases "heappop cstate_lt heap")
      case (Inl e)
      with ne show ?thesis by (subst cheapest_loop.simps) simp
    next
      case (Inr xh)
      obtain c t a p heap1 where xh: "xh = ((c, t, a, p), heap1)"
        by (metis prod_cases3 surj_pair)
      note pop = Inr[unfolded xh]
      note len = heappop_length[OF pop]
      note sp = settled_pop[OF s compat_cstate pop, simplified]
      from heappop_set[OF pop] range have inr: "a \<in> set as"
        and range1: "\<forall>e\<in>set heap1. fst (snd (snd e)) \<in> set as"
        by auto
      show ?thesis
      proof (cases "a = dst \<and> p \<noteq> []")
        case True
        with ne pop show ?thesis by (subst cheapest_loop.simps) simp
      next
        case False
        show ?thesis
        proof (cases "case visited a of None \<Rightarrow> False | Some v \<Rightarrow> v \<le> c")
          case True
          have "potential [] as visited * Suc n + length heap1
                  < potential [] as visited * Suc n + length heap"
            using len by simp
          from less.hyps[OF this sp(1) range1] obtain r where
            "cheapest_loop graph dst cabin heap1 visited = Some r" by blast
          with ne pop False True show ?thesis by (subst cheapest_loop.simps) simp
        next
          case nv: False
          from nv sp(3) have none: "visited a = None" by (cases "visited a") auto
          show ?thesis
          proof (cases "push_cheapest cabin c t p (graph_get graph a) heap1")
            case (Inl e)
            with ne pop False nv show ?thesis by (subst cheapest_loop.simps) simp
          next
            case (Inr heap2)
            have "potential [] as (visited(a \<mapsto> c)) < potential [] as visited"
              by (rule potential_less[OF inr unsettled_first[of visited a c, OF none]])
            then have "potential [] as (visited(a \<mapsto> c)) * Suc n + length heap2
                  < potential [] as visited * Suc n + Suc (length heap1)"
              using push_cheapest_length[OF Inr bound] by (rule measure_step)
            then have m: "potential [] as (visited(a \<mapsto> c)) * Suc n + length heap2
                  < potential [] as visited * Suc n + length heap"
              using len by simp
            have ga: "\<forall>f\<in>set (graph_get graph a).
                        \<forall>p. price_for f cabin = Inr p \<longrightarrow> 0 \<le> p"
              using nonneg by blast
            from sp(1) have ok1: "heap_ok fst heap1" by (simp add: settled_def)
            from push_cheapest_keys[OF ga ok1 Inr]
            have ok2: "heap_ok fst heap2"
              and keys: "\<forall>e\<in>set heap2. e \<in> set heap1 \<or> c \<le> fst e" by simp_all
            have "settled fst heap2 (visited(a \<mapsto> c)) ([] @ [a])"
              by (rule settled_expand[OF sp(1) _ sp(3) nv ok2 keys]) (use sp(2) in auto)
            then have s2: "settled fst heap2 (visited(a \<mapsto> c)) []" by (rule settled_forget)
            from less.hyps[OF m s2 push_cheapest_range[OF Inr as range1]] obtain r where
              "cheapest_loop graph dst cabin heap2 (visited(a \<mapsto> c)) = Some r"
              by blast
            with ne pop False nv Inr show ?thesis by (subst cheapest_loop.simps) simp
          qed
        qed
      qed
    qed
  qed
qed

section \<open>A search that does not return\<close>

lemma heappush_empty: "heappush lt [] x = Inr [x]"
  by (simp add: heappush_def siftdown_def) (subst siftdown_loop.simps, simp)

lemma heappop_single: "heappop lt [x] = Inr (x, [])"
  by (simp add: heappop_def)

lemma self_loop_never_returns:
  assumes "cheapest_loop graph dst cabin heap visited = Some r"
  shows "graph = build_graph [loop_flight] \<Longrightarrow> dst = ''Z'' \<Longrightarrow> cabin = ''economy'' \<Longrightarrow>
    heap = [(- int n, 0, ''A'', replicate n loop_flight)] \<Longrightarrow>
    (case visited ''A'' of None \<Rightarrow> True | Some v \<Rightarrow> - int n < v) \<Longrightarrow> False"
  using assms
proof (induction graph dst cabin heap visited r arbitrary: n
        rule: cheapest_loop.raw_induct[rotated 1, consumes 1, case_names step])
  case (step loop graph dst cabin heap visited r)
  let ?p = "replicate n loop_flight"
  have g: "graph_get graph ''A'' = [loop_flight]"
    using step.prems(1) by (simp add: graph_get_build_graph loop_flight_def mk_flight_def)
  have noskip: "\<not> (case visited ''A'' of None \<Rightarrow> False | Some v \<Rightarrow> v \<le> - int n)"
    using step.prems(5) by (auto split: option.splits)
  have dep: "(if ?p = [] then (0::int) \<le> depart loop_flight
              else 0 + MIN_LAYOVER_MINUTES \<le> depart loop_flight)"
    by (simp add: loop_flight_def mk_flight_def MIN_LAYOVER_MINUTES_def)
  have pr: "price_for loop_flight ''economy'' = Inr (- 1)"
    by (simp add: price_for_def loop_flight_def mk_flight_def)
  have fl: "arrive loop_flight = 0" "dest loop_flight = ''A''"
    by (simp_all add: loop_flight_def mk_flight_def)
  have push: "push_cheapest ''economy'' (- int n) 0 ?p [loop_flight] [] =
     Inr [(- int n + - 1, 0, ''A'', ?p @ [loop_flight])]"
    using dep by (simp add: pr fl heappush_empty Let_def)
  from step.hyps(1) step.prems(2,3,4) g noskip push
  have next_call: "loop graph dst cabin [(- int n + - 1, 0, ''A'', ?p @ [loop_flight])]
          (visited(''A'' \<mapsto> - int n)) = Some r"
    by (simp add: heappop_single)
  have h': "[(- int n + - 1, 0, ''A'', ?p @ [loop_flight])] =
            [(- int (Suc n), 0, ''A'', replicate (Suc n) loop_flight)]"
    by (simp add: replicate_append_same)
  show ?case
    by (rule step.IH[OF next_call[unfolded h'] step.prems(1,2,3) refl]) simp
qed

lemma cheapest_never_returns:
  "find_cheapest_itinerary (build_graph [loop_flight]) ''A'' ''Z'' 0 ''economy'' = None"
proof (cases "find_cheapest_itinerary (build_graph [loop_flight]) ''A'' ''Z'' 0 ''economy''")
  case None
  then show ?thesis .
next
  case (Some r)
  then have "cheapest_loop (build_graph [loop_flight]) ''Z'' ''economy'' [(0, 0, ''A'', [])]
               Map.empty = Some r"
    by (simp add: find_cheapest_itinerary_def)
  from self_loop_never_returns[OF this refl refl refl, of 0] show ?thesis by simp
qed

section \<open>Cabin prices\<close>

text \<open>
  C8: for a cabin outside economy, business and first, \<open>price_for\<close> raises
  \<^verbatim>\<open>ValueError\<close> and returns no price; for each of the three cabins it returns the
  price field of that name.
\<close>

theorem price_for_closed_set:
  "(cabin \<notin> {''economy'', ''business'', ''first''} \<longrightarrow>
      price_for f cabin = Inl (ValueError (''Unknown cabin: '' @ cabin))) \<and>
   price_for f ''economy'' = Inr (economy f) \<and>
   price_for f ''business'' = Inr (business f) \<and>
   price_for f ''first'' = Inr (first f)"
  by (simp add: price_for_def)

theorem price_for_closed_set_witness:
  "''premium'' \<notin> {''economy'', ''business'', ''first''} \<and>
   price_for (mk_flight ''A'' ''B'' ''X1'' 480 600 100 200 300) ''premium'' =
     Inl (ValueError ''Unknown cabin: premium'') \<and>
   price_for (mk_flight ''A'' ''B'' ''X1'' 480 600 100 200 300) ''business'' = Inr 200"
  using price_for_closed_set [of "''premium''" "mk_flight ''A'' ''B'' ''X1'' 480 600 100 200 300"]
  by (simp add: mk_flight_def)

section \<open>Returned itineraries\<close>

lemma scenario_earliest:
  "find_earliest_itinerary (build_graph scenario_flights) ''A'' ''C'' 420 =
     Some (Inr (Some (Itinerary [mk_flight ''A'' ''B'' ''X1'' 480 600 100 200 300,
                                 mk_flight ''B'' ''C'' ''X2'' 660 780 50 100 150])))"
  by code_simp

lemma scenario_cheapest:
  "find_cheapest_itinerary (build_graph scenario_flights) ''A'' ''C'' 420 ''economy'' =
     Some (Inr (Some (Itinerary [mk_flight ''A'' ''B'' ''X1'' 480 600 100 200 300,
                                 mk_flight ''B'' ''C'' ''X2'' 660 780 50 100 150])))"
  by code_simp

text \<open>
  C3: an itinerary returned by either search satisfies the constraints: its legs are
  flights of the graph, the first leg leaves \<open>start\<close> at or after the earliest departure,
  each further leg leaves the airport where the leg before it arrived, 60 minutes or more
  after that arrival, and the last leg arrives at \<open>dst\<close>. The graph is any graph that
  \<open>build_graph\<close> makes.
\<close>

theorem returned_itinerary_satisfies_constraints:
  "(find_earliest_itinerary (build_graph fs) start dst ed = Some (Inr (Some it)) \<longrightarrow>
      satisfies_constraints (build_graph fs) start dst ed (flights it)) \<and>
   (find_cheapest_itinerary (build_graph fs) start dst ed cabin = Some (Inr (Some it')) \<longrightarrow>
      satisfies_constraints (build_graph fs) start dst ed (flights it'))"
proof (intro conjI impI)
  assume "find_earliest_itinerary (build_graph fs) start dst ed = Some (Inr (Some it))"
  then have "earliest_loop (build_graph fs) dst [(ed, start, [])] Map.empty = Some (Inr (Some it))"
    by (simp add: find_earliest_itinerary_def)
  from earliest_loop_ok[OF this refl _ refl, where start=start and ed=ed]
  show "satisfies_constraints (build_graph fs) start dst ed (flights it)"
    by (simp add: estate_ok_def)
next
  assume "find_cheapest_itinerary (build_graph fs) start dst ed cabin = Some (Inr (Some it'))"
  then have "cheapest_loop (build_graph fs) dst cabin [(0, ed, start, [])] Map.empty
               = Some (Inr (Some it'))"
    by (simp add: find_cheapest_itinerary_def)
  from cheapest_loop_ok[OF this refl _ refl, where start=start and ed=ed]
  show "satisfies_constraints (build_graph fs) start dst ed (flights it')"
    by (simp add: estate_ok_def cstate_ok_def)
qed

theorem returned_itinerary_satisfies_constraints_witness:
  "find_earliest_itinerary (build_graph scenario_flights) ''A'' ''C'' 420 =
     Some (Inr (Some (Itinerary [mk_flight ''A'' ''B'' ''X1'' 480 600 100 200 300,
                                 mk_flight ''B'' ''C'' ''X2'' 660 780 50 100 150]))) \<and>
   find_cheapest_itinerary (build_graph scenario_flights) ''A'' ''C'' 420 ''economy'' =
     Some (Inr (Some (Itinerary [mk_flight ''A'' ''B'' ''X1'' 480 600 100 200 300,
                                 mk_flight ''B'' ''C'' ''X2'' 660 780 50 100 150]))) \<and>
   satisfies_constraints (build_graph scenario_flights) ''A'' ''C'' 420
     [mk_flight ''A'' ''B'' ''X1'' 480 600 100 200 300,
      mk_flight ''B'' ''C'' ''X2'' 660 780 50 100 150]"
  using returned_itinerary_satisfies_constraints
          [of scenario_flights "''A''" "''C''" 420
              "Itinerary [mk_flight ''A'' ''B'' ''X1'' 480 600 100 200 300,
                          mk_flight ''B'' ''C'' ''X2'' 660 780 50 100 150]"
              "''economy''"
              "Itinerary [mk_flight ''A'' ''B'' ''X1'' 480 600 100 200 300,
                          mk_flight ''B'' ''C'' ''X2'' 660 780 50 100 150]"]
        scenario_earliest scenario_cheapest
  by simp

section \<open>Termination\<close>

lemma price_nonneg_iff:
  "price_nonneg cabin f \<longleftrightarrow> (\<forall>p. price_for f cabin = Inr p \<longrightarrow> 0 \<le> p)"
  by (simp add: price_nonneg_def split: sum.splits)

lemma finite_dom_foldl: "finite (dom g) \<Longrightarrow> finite (dom (foldl add_flight g fs))"
  by (induction fs arbitrary: g) (simp_all add: add_flight_def)

lemma finite_dom_build_graph: "finite (dom (build_graph fs))"
  unfolding build_graph_def by (rule finite_dom_foldl) simp

lemma concat_covers:
  "xs \<in> set xss \<Longrightarrow> set xs \<subseteq> set (concat xss) \<and> length xs \<le> length (concat xss)"
  by (induction xss) auto

lemma graph_cover:
  assumes "finite (dom graph)"
  shows "\<exists>fs. (\<forall>a. set (graph_get graph a) \<subseteq> set fs) \<and>
              (\<forall>a. length (graph_get graph a) \<le> length fs)"
proof -
  from finite_list[OF assms] obtain ks where ks: "set ks = dom graph" ..
  define fs where "fs = concat (map (graph_get graph) ks)"
  have both: "set (graph_get graph a) \<subseteq> set fs \<and> length (graph_get graph a) \<le> length fs"
    for a
  proof (cases "graph a")
    case None
    then show ?thesis by (simp add: graph_get_def)
  next
    case (Some l)
    then have "a \<in> set ks" unfolding ks by (rule domI)
    then have "graph_get graph a \<in> set (map (graph_get graph) ks)" by simp
    then show ?thesis unfolding fs_def by (rule concat_covers)
  qed
  show ?thesis
  proof (intro exI[of _ fs] conjI allI)
    fix a
    from both[of a] show "set (graph_get graph a) \<subseteq> set fs" ..
    from both[of a] show "length (graph_get graph a) \<le> length fs" ..
  qed
qed

lemma earliest_search_runs:
  assumes fin: "finite (dom graph)"
  shows "\<exists>xs q. earliest_run graph dst [(ed, start, [])] Map.empty [] = Some (xs, q) \<and>
      find_earliest_itinerary graph start dst ed = Some (outcome q) \<and>
      (\<forall>rest. q = Inr (rest, None) \<longrightarrow> rest = []) \<and>
      ((\<forall>a. \<forall>f\<in>set (graph_get graph a). depart f \<le> arrive f) \<longrightarrow> distinct xs)"
proof -
  from graph_cover[OF fin] obtain fs where
    cover: "\<forall>a. set (graph_get graph a) \<subseteq> set fs"
           "\<forall>a. length (graph_get graph a) \<le> length fs"
    by blast
  from cover have sub: "set (graph_get graph a) \<subseteq> set fs"
    and len: "length (graph_get graph a) \<le> length fs" for a
    by simp_all
  let ?ts = "ed # map arrive fs" and ?as = "start # map dest fs"
  have ts: "arrive ` set (graph_get graph a) \<subseteq> set ?ts" for a using sub[of a] by auto
  have as: "dest ` set (graph_get graph a) \<subseteq> set ?as" for a using sub[of a] by auto
  have "\<exists>r. earliest_loop graph dst [(ed, start, [])] Map.empty = Some r"
    by (rule earliest_loop_returns[of graph ?ts ?as "length fs", OF ts as len]) simp
  then obtain r where r: "earliest_loop graph dst [(ed, start, [])] Map.empty = Some r"
    by blast
  from earliest_run_follows_loop[OF r, of "[]"] obtain xs q where
    run: "earliest_run graph dst [(ed, start, [])] Map.empty [] = Some (xs, q)"
    and q: "outcome q = r" by blast
  from r q have f: "find_earliest_itinerary graph start dst ed = Some (outcome q)"
    by (simp add: find_earliest_itinerary_def)
  have ex: "\<forall>rest. q = Inr (rest, None) \<longrightarrow> rest = []"
    using earliest_run_exhausted[OF run] by simp
  have d: "distinct xs" if "\<forall>a. \<forall>f\<in>set (graph_get graph a). depart f \<le> arrive f"
    using earliest_run_distinct[OF run that settled_initial] by simp
  from run f ex d show ?thesis by blast
qed

lemma cheapest_search_runs:
  assumes fin: "finite (dom graph)"
    and "(\<forall>a. \<forall>f\<in>set (graph_get graph a). depart f < arrive f) \<or>
         (\<forall>a. \<forall>f\<in>set (graph_get graph a). price_nonneg cabin f)"
  shows "\<exists>xs q. cheapest_run graph dst cabin [(0, ed, start, [])] Map.empty []
             = Some (xs, q) \<and>
      find_cheapest_itinerary graph start dst ed cabin = Some (outcome q) \<and>
      (\<forall>rest. q = Inr (rest, None) \<longrightarrow> rest = []) \<and>
      ((\<forall>a. \<forall>f\<in>set (graph_get graph a). price_nonneg cabin f) \<longrightarrow> distinct xs)"
proof -
  from graph_cover[OF fin] obtain fs where
    cover: "\<forall>a. set (graph_get graph a) \<subseteq> set fs"
           "\<forall>a. length (graph_get graph a) \<le> length fs"
    by blast
  from cover have sub: "set (graph_get graph a) \<subseteq> set fs"
    and len: "length (graph_get graph a) \<le> length fs" for a
    by simp_all
  let ?as = "start # map dest fs"
  have as: "dest ` set (graph_get graph a) \<subseteq> set ?as" for a using sub[of a] by auto
  have "\<exists>r. cheapest_loop graph dst cabin [(0, ed, start, [])] Map.empty = Some r"
    using assms(2)
  proof
    assume "\<forall>a. \<forall>f\<in>set (graph_get graph a). depart f < arrive f"
    with sub show ?thesis by (rule cheapest_loop_terminates)
  next
    assume "\<forall>a. \<forall>f\<in>set (graph_get graph a). price_nonneg cabin f"
    then have nn: "\<forall>a. \<forall>f\<in>set (graph_get graph a). \<forall>p. price_for f cabin = Inr p \<longrightarrow> 0 \<le> p"
      by (simp add: price_nonneg_iff)
    show ?thesis
      by (rule cheapest_loop_returns[of graph ?as "length fs", OF as len nn settled_initial])
        simp
  qed
  then obtain r where
    r: "cheapest_loop graph dst cabin [(0, ed, start, [])] Map.empty = Some r"
    by blast
  from cheapest_run_follows_loop[OF r, of "[]"] obtain xs q where
    run: "cheapest_run graph dst cabin [(0, ed, start, [])] Map.empty [] = Some (xs, q)"
    and q: "outcome q = r" by blast
  from r q have f: "find_cheapest_itinerary graph start dst ed cabin = Some (outcome q)"
    by (simp add: find_cheapest_itinerary_def)
  have ex: "\<forall>rest. q = Inr (rest, None) \<longrightarrow> rest = []"
    using cheapest_run_exhausted[OF run] by simp
  have d: "distinct xs" if "\<forall>a. \<forall>f\<in>set (graph_get graph a). price_nonneg cabin f"
  proof -
    from that have "\<forall>a. \<forall>f\<in>set (graph_get graph a). \<forall>p. price_for f cabin = Inr p \<longrightarrow> 0 \<le> p"
      by (simp add: price_nonneg_iff)
    from cheapest_run_distinct[OF run this settled_initial]
    show ?thesis by simp
  qed
  from run f ex d show ?thesis by blast
qed

lemma negative_price_expands_twice:
  "cheapest_run (build_graph negative_price_flights) ''Z'' ''economy'' [(0, 420, ''A'', [])]
     Map.empty [] = Some ([''A'', ''B'', ''C'', ''B''], Inr ([], None))"
  by code_simp

lemma backward_flight_expands_twice:
  "earliest_run (build_graph backward_flights) ''Z'' [(420, ''A'', [])] Map.empty []
     = Some ([''A'', ''B'', ''C'', ''B''], Inr ([], None))"
  by code_simp

lemma tie_ends_run:
  "earliest_run (build_graph tie_flights) ''D'' [(420, ''A'', [])] Map.empty []
     = Some ([''A''],
         Inl (TypeError ''< not supported between instances of Flight and Flight''))"
  by code_simp

lemma round_trip_earliest_run:
  "earliest_run (build_graph round_trip_flights) ''Z'' [(420, ''A'', [])] Map.empty []
     = Some ([''A'', ''B''], Inr ([], None))"
  by code_simp

lemma round_trip_cheapest_run:
  "cheapest_run (build_graph round_trip_flights) ''Z'' ''first'' [(0, 420, ''A'', [])]
     Map.empty [] = Some ([''A'', ''B''], Inr ([], None))"
  by code_simp

text \<open>
  C6, as claimed, fails in each of its parts. The cheapest-price search never returns on
  the graph of one record from A to A that arrives before it departs at a negative price.
  On records with valid times and one negative price it expands B twice, and on records
  with non-negative prices of which one arrives before it departs the earliest-arrival
  search expands B twice. A search that does not reach its destination may end with the
  \<^verbatim>\<open>TypeError\<close> of a comparison, its queue not exhausted.
\<close>

theorem visited_map_does_not_bound_search:
  "find_cheapest_itinerary (build_graph [loop_flight]) ''A'' ''Z'' 0 ''economy'' = None \<and>
   cheapest_run (build_graph negative_price_flights) ''Z'' ''economy'' [(0, 420, ''A'', [])]
     Map.empty [] = Some ([''A'', ''B'', ''C'', ''B''], Inr ([], None)) \<and>
   earliest_run (build_graph backward_flights) ''Z'' [(420, ''A'', [])] Map.empty []
     = Some ([''A'', ''B'', ''C'', ''B''], Inr ([], None)) \<and>
   earliest_run (build_graph tie_flights) ''D'' [(420, ''A'', [])] Map.empty []
     = Some ([''A''],
         Inl (TypeError ''< not supported between instances of Flight and Flight''))"
  by (intro conjI cheapest_never_returns negative_price_expands_twice
        backward_flight_expands_twice tie_ends_run)

text \<open>
  C6, amended: on every finite graph, cycles of connecting flights included, the
  earliest-arrival search returns, with a result or with the exception that a step of the
  loop raised; so does the cheapest-price search when every flight of the graph arrives
  after it departs, or when no flight of the graph has a negative price for the cabin.
  When a search returns \<^verbatim>\<open>None\<close> its queue is exhausted. The earliest-arrival search
  expands no airport twice when no flight of the graph arrives before it departs, and the
  cheapest-price search expands no airport twice when no flight of the graph has a
  negative price for the cabin.
\<close>

theorem searches_return_and_expand_once:
  assumes "finite (dom graph)"
  shows
  "(\<exists>xs q. earliest_run graph dst [(ed, start, [])] Map.empty [] = Some (xs, q) \<and>
      find_earliest_itinerary graph start dst ed = Some (outcome q) \<and>
      (\<forall>rest. q = Inr (rest, None) \<longrightarrow> rest = []) \<and>
      ((\<forall>a. \<forall>f\<in>set (graph_get graph a). depart f \<le> arrive f) \<longrightarrow> distinct xs)) \<and>
   ((\<forall>a. \<forall>f\<in>set (graph_get graph a). depart f < arrive f) \<or>
    (\<forall>a. \<forall>f\<in>set (graph_get graph a). price_nonneg cabin f) \<longrightarrow>
    (\<exists>xs q. cheapest_run graph dst cabin [(0, ed, start, [])] Map.empty [] = Some (xs, q) \<and>
      find_cheapest_itinerary graph start dst ed cabin = Some (outcome q) \<and>
      (\<forall>rest. q = Inr (rest, None) \<longrightarrow> rest = []) \<and>
      ((\<forall>a. \<forall>f\<in>set (graph_get graph a). price_nonneg cabin f) \<longrightarrow> distinct xs)))"
proof (intro conjI impI)
  show "\<exists>xs q. earliest_run graph dst [(ed, start, [])] Map.empty [] = Some (xs, q) \<and>
      find_earliest_itinerary graph start dst ed = Some (outcome q) \<and>
      (\<forall>rest. q = Inr (rest, None) \<longrightarrow> rest = []) \<and>
      ((\<forall>a. \<forall>f\<in>set (graph_get graph a). depart f \<le> arrive f) \<longrightarrow> distinct xs)"
    using assms by (rule earliest_search_runs)
next
  assume "(\<forall>a. \<forall>f\<in>set (graph_get graph a). depart f < arrive f) \<or>
    (\<forall>a. \<forall>f\<in>set (graph_get graph a). price_nonneg cabin f)"
  with assms
  show "\<exists>xs q. cheapest_run graph dst cabin [(0, ed, start, [])] Map.empty [] = Some (xs, q) \<and>
      find_cheapest_itinerary graph start dst ed cabin = Some (outcome q) \<and>
      (\<forall>rest. q = Inr (rest, None) \<longrightarrow> rest = []) \<and>
      ((\<forall>a. \<forall>f\<in>set (graph_get graph a). price_nonneg cabin f) \<longrightarrow> distinct xs)"
    by (rule cheapest_search_runs)
qed

theorem searches_return_and_expand_once_witness:
  "finite (dom (build_graph round_trip_flights)) \<and>
   list_all (\<lambda>f. depart f < arrive f) round_trip_flights \<and>
   list_all (price_nonneg ''first'') round_trip_flights \<and>
   (\<exists>xs q. earliest_run (build_graph round_trip_flights) ''Z'' [(420, ''A'', [])] Map.empty []
              = Some (xs, q) \<and>
      find_earliest_itinerary (build_graph round_trip_flights) ''A'' ''Z'' 420
        = Some (outcome q) \<and>
      q = Inr ([], None) \<and> distinct xs) \<and>
   (\<exists>xs q. cheapest_run (build_graph round_trip_flights) ''Z'' ''first'' [(0, 420, ''A'', [])]
              Map.empty [] = Some (xs, q) \<and>
      find_cheapest_itinerary (build_graph round_trip_flights) ''A'' ''Z'' 420 ''first''
        = Some (outcome q) \<and>
      q = Inr ([], None) \<and> distinct xs)"
proof -
  let ?g = "build_graph round_trip_flights"
  have fin: "finite (dom ?g)" by (rule finite_dom_build_graph)
  have v: "\<forall>f\<in>set round_trip_flights. depart f < arrive f"
    by (simp add: round_trip_flights_def mk_flight_def)
  have n: "\<forall>f\<in>set round_trip_flights. price_nonneg ''first'' f"
    by (simp add: round_trip_flights_def mk_flight_def price_nonneg_def price_for_def)
  from v have gv: "\<forall>a. \<forall>f\<in>set (graph_get ?g a). depart f < arrive f"
    by (auto simp: graph_get_build_graph)
  then have gw: "\<forall>a. \<forall>f\<in>set (graph_get ?g a). depart f \<le> arrive f" by fastforce
  from n have gn: "\<forall>a. \<forall>f\<in>set (graph_get ?g a). price_nonneg ''first'' f"
    by (auto simp: graph_get_build_graph)
  note T = searches_return_and_expand_once[OF fin, of "''Z''" 420 "''A''" "''first''"]
  from T[THEN conjunct1] gw obtain xs q where
    e: "earliest_run ?g ''Z'' [(420, ''A'', [])] Map.empty [] = Some (xs, q)"
       "find_earliest_itinerary ?g ''A'' ''Z'' 420 = Some (outcome q)"
       "distinct xs"
    by blast
  from e(1) have eq: "q = Inr ([], None)" by (simp add: round_trip_earliest_run)
  from T[THEN conjunct2] gv gn obtain ys r where
    c: "cheapest_run ?g ''Z'' ''first'' [(0, 420, ''A'', [])] Map.empty [] = Some (ys, r)"
       "find_cheapest_itinerary ?g ''A'' ''Z'' 420 ''first'' = Some (outcome r)"
       "distinct ys"
    by blast
  from c(1) have cq: "r = Inr ([], None)" by (simp add: round_trip_cheapest_run)
  from fin v n e eq c cq show ?thesis unfolding list_all_iff by blast
qed

section \<open>Time strings\<close>

text \<open>
  C9: for every minute count \<open>m\<close> from 0 up to 1439, parsing the string that
  \<open>format_time\<close> makes of \<open>m\<close> gives \<open>m\<close> back; \<open>format_time\<close> always returns
  a string and \<open>parse_time\<close> does not raise on it.
\<close>

theorem parse_format_roundtrip:
  assumes "0 \<le> m" "m < 1440"
  shows "parse_time (format_time m) = Inr m"
proof -
  define h where "h = nat (m div 60)"
  define mi where "mi = nat (m mod 60)"
  from assms have r: "0 \<le> m div 60" "m div 60 < 24" "0 \<le> m mod 60" "m mod 60 < 60"
    by presburger+
  from r have h: "h < 24" and mi: "mi < 60" by (auto simp: h_def mi_def)
  have m: "m = int h * 60 + int mi" using r by (simp add: h_def mi_def)
  define a b c d where "a = h div 10" and "b = h mod 10" and "c = mi div 10" and "d = mi mod 10"
  have dg: "a < 10" "b < 10" "c < 10" "d < 10" using h mi by (auto simp: a_def b_def c_def d_def)
  have fh: "fmt_02d (m div 60) = [digit_char a, digit_char b]"
    using fmt_02d_two_digits[of "m div 60"] r by (simp add: h_def a_def b_def)
  have fm: "fmt_02d (m mod 60) = [digit_char c, digit_char d]"
    using fmt_02d_two_digits[of "m mod 60"] r by (simp add: mi_def c_def d_def)
  have ft: "format_time m = [digit_char a, digit_char b, CHR '':'', digit_char c, digit_char d]"
    by (simp add: format_time_def Let_def fh fm)
  have st: "strip (format_time m) = format_time m"
    unfolding ft by (rule strip_no_space) (simp_all add: digit_char_facts[OF dg(1)] digit_char_facts[OF dg(4)])
  have sp: "split_on CHR '':'' (strip (format_time m)) = [[digit_char a, digit_char b], [digit_char c, digit_char d]]"
    unfolding st unfolding ft by (rule split_on_time[OF dg])
  have ih: "py_int [digit_char a, digit_char b] = Inr (int h)"
    using py_int_two_digits[OF dg(1,2)] by (simp add: a_def b_def)
  have im: "py_int [digit_char c, digit_char d] = Inr (int mi)"
    using py_int_two_digits[OF dg(3,4)] by (simp add: c_def d_def)
  show ?thesis
    unfolding parse_time_def sp using h mi m by (simp add: ih im)
qed

theorem parse_format_roundtrip_witness:
  "format_time 1439 = ''23:59'' \<and> parse_time (format_time 1439) = Inr 1439"
proof -
  have "format_time 1439 = ''23:59''" by code_simp
  with parse_format_roundtrip [of 1439] show ?thesis by simp
qed

section \<open>Loading\<close>

lemma negative_price_line_loads:
  "parse_flight_line_txt negative_price_line =
     Inr (Some (mk_flight ''A'' ''B'' ''X1'' 480 600 (- 5) 200 300))"
  by code_simp

lemma negative_price_file_loads:
  "load_flights_txt ''flights.txt'' [''# schedule'', negative_price_line] =
     Inr [mk_flight ''A'' ''B'' ''X1'' 480 600 (- 5) 200 300]"
  by code_simp

lemma negative_price_row_loads:
  "load_flights_csv cols cells_text (Some required_cols) [negative_price_row] =
     Inr [\<lparr>origin = Some ''A'', dest = Some ''B'', flight_number = Some ''X1'',
           depart = 480, arrive = 600, economy = - 5, business = 200, first = 300\<rparr>]"
  by (simp add: load_flights_csv_def required_cols_def csv_row_flight_def
        negative_price_row_def parse_time_cell_def int_cell_def) code_simp

text \<open>
  C7, as the claim states it, fails: a record with a negative price is loaded, by the
  text loader and by the CSV loader, with the negative price in the flight.
\<close>

theorem negative_price_is_loaded:
  "load_flights_txt ''flights.txt'' [negative_price_line] =
     Inr [mk_flight ''A'' ''B'' ''X1'' 480 600 (- 5) 200 300] \<and>
   load_flights_csv ''{}'' cells_text (Some required_cols) [negative_price_row] =
     Inr [\<lparr>origin = Some ''A'', dest = Some ''B'', flight_number = Some ''X1'',
           depart = 480, arrive = 600, economy = - 5, business = 200, first = 300\<rparr>] \<and>
   economy (mk_flight ''A'' ''B'' ''X1'' 480 600 (- 5) 200 300) < 0"
  by code_simp

text \<open>
  C7, amended: the loaders check the times and not the prices, and each refusal is an
  error that says what is wrong and where.
  \<^item> A flight that a line, a file or a CSV table loads has both times in the range from 0
    to 1439 and arrives after it departs.
  \<^item> A time whose hour is outside 0 to 23 or whose minute is outside 0 to 59, and so every
    time outside the range from 0 to 1439 minutes, makes \<open>parse_time\<close> raise
    \<^verbatim>\<open>ValueError\<close> with a message that holds the text of the time; a line or a row
    with such a departure or arrival raises that error.
  \<^item> A line or a row whose arrival is not after its departure raises \<^verbatim>\<open>ValueError\<close>
    with a message that holds the line or the row.
  \<^item> The first line that raises ends the load of the file with its message, behind the
    path and the number of the line; the first row that raises ends the load of the table
    with its error. No record is dropped or changed.
\<close>

theorem loading_validates_times:
  "(parse_flight_line_txt line = Inr (Some f) \<longrightarrow> times_valid f) \<and>
   (load_flights_txt path file_lines = Inr fs \<longrightarrow> list_all times_valid fs) \<and>
   (load_flights_csv cols row_text fieldnames rows = Inr cfs \<longrightarrow> list_all times_valid cfs) \<and>
   (length (split_on CHR '':'' (strip s)) = 2 \<and>
    py_int (split_on CHR '':'' (strip s) ! 0) = Inr hour \<and>
    py_int (split_on CHR '':'' (strip s) ! 1) = Inr minute \<and>
    (\<not> (0 \<le> hour \<and> hour < 24 \<and> 0 \<le> minute \<and> minute < 60) \<or>
     hour * 60 + minute < 0 \<or> 1440 \<le> hour * 60 + minute) \<longrightarrow>
      parse_time s = Inl (ValueError (''Hour or minute out of range: '' @ s))) \<and>
   (length (split_ws (strip tline)) = 8 \<and> \<not> startswith (strip tline) ''#'' \<and>
    (parse_time (split_ws (strip tline) ! 3) = Inl e \<or>
     \<not> isl (parse_time (split_ws (strip tline) ! 3)) \<and>
     parse_time (split_ws (strip tline) ! 4) = Inl e) \<longrightarrow>
      parse_flight_line_txt tline = Inl e) \<and>
   (length (split_ws (strip aline)) = 8 \<and> \<not> startswith (strip aline) ''#'' \<and>
    parse_time (split_ws (strip aline) ! 3) = Inr d \<and>
    parse_time (split_ws (strip aline) ! 4) = Inr a \<and> a \<le> d \<longrightarrow>
      parse_flight_line_txt aline =
        Inl (ValueError (''Arrival must be after departure: '' @ strip aline))) \<and>
   (i < length ls \<and> parse_flight_line_txt (ls ! i) = Inl (ValueError m) \<and>
    (\<forall>k<i. \<not> isl (parse_flight_line_txt (ls ! k))) \<longrightarrow>
      load_flights_txt lpath ls =
        Inl (ValueError (lpath @ '':'' @ dec_digits (i + 1) @ '': '' @ m))) \<and>
   (parse_time_cell (trow ''depart'') = Inl ce \<or>
    \<not> isl (parse_time_cell (trow ''depart'')) \<and> parse_time_cell (trow ''arrive'') = Inl ce \<longrightarrow>
      csv_row_flight row_text trow = Inl ce) \<and>
   (parse_time_cell (arow ''depart'') = Inr cd \<and> parse_time_cell (arow ''arrive'') = Inr ca \<and>
    ca \<le> cd \<longrightarrow>
      csv_row_flight row_text arow =
        Inl (ValueError (''Arrival must be after departure: '' @ row_text arow))) \<and>
   (list_all (\<lambda>c. c \<in> set names) required_cols \<and> j < length rs \<and>
    csv_row_flight row_text (rs ! j) = Inl re \<and>
    (\<forall>k<j. \<not> isl (csv_row_flight row_text (rs ! k))) \<longrightarrow>
      load_flights_csv cols row_text (Some names) rs = Inl re)"
proof (intro conjI impI)
  assume "parse_flight_line_txt line = Inr (Some f)"
  then show "times_valid f" by (rule parse_flight_line_txt_times)
next
  assume "load_flights_txt path file_lines = Inr fs"
  then show "list_all times_valid fs"
    unfolding load_flights_txt_def by (rule load_lines_times) simp
next
  assume "load_flights_csv cols row_text fieldnames rows = Inr cfs"
  then have "load_rows row_text rows [] = Inr cfs"
    by (simp add: load_flights_csv_def split: if_splits)
  then show "list_all times_valid cfs" by (rule load_rows_times) simp
next
  assume "length (split_on CHR '':'' (strip s)) = 2 \<and>
    py_int (split_on CHR '':'' (strip s) ! 0) = Inr hour \<and>
    py_int (split_on CHR '':'' (strip s) ! 1) = Inr minute \<and>
    (\<not> (0 \<le> hour \<and> hour < 24 \<and> 0 \<le> minute \<and> minute < 60) \<or>
     hour * 60 + minute < 0 \<or> 1440 \<le> hour * 60 + minute)"
  then have "length (split_on CHR '':'' (strip s)) = 2"
    "py_int (split_on CHR '':'' (strip s) ! 0) = Inr hour"
    "py_int (split_on CHR '':'' (strip s) ! 1) = Inr minute"
    "\<not> (0 \<le> hour \<and> hour < 24 \<and> 0 \<le> minute \<and> minute < 60) \<or>
     hour * 60 + minute < 0 \<or> 1440 \<le> hour * 60 + minute"
    by blast+
  then show "parse_time s = Inl (ValueError (''Hour or minute out of range: '' @ s))"
    by (rule parse_time_out_of_range)
next
  assume "length (split_ws (strip tline)) = 8 \<and> \<not> startswith (strip tline) ''#'' \<and>
    (parse_time (split_ws (strip tline) ! 3) = Inl e \<or>
     \<not> isl (parse_time (split_ws (strip tline) ! 3)) \<and>
     parse_time (split_ws (strip tline) ! 4) = Inl e)"
  then have "length (split_ws (strip tline)) = 8" "\<not> startswith (strip tline) ''#''"
    "parse_time (split_ws (strip tline) ! 3) = Inl e \<or>
     (\<not> isl (parse_time (split_ws (strip tline) ! 3)) \<and>
      parse_time (split_ws (strip tline) ! 4) = Inl e)"
    by blast+
  then show "parse_flight_line_txt tline = Inl e" by (rule bad_time_rejected)
next
  assume "length (split_ws (strip aline)) = 8 \<and> \<not> startswith (strip aline) ''#'' \<and>
    parse_time (split_ws (strip aline) ! 3) = Inr d \<and>
    parse_time (split_ws (strip aline) ! 4) = Inr a \<and> a \<le> d"
  then have "length (split_ws (strip aline)) = 8" "\<not> startswith (strip aline) ''#''"
    "parse_time (split_ws (strip aline) ! 3) = Inr d"
    "parse_time (split_ws (strip aline) ! 4) = Inr a" "a \<le> d"
    by simp_all
  then show "parse_flight_line_txt aline =
        Inl (ValueError (''Arrival must be after departure: '' @ strip aline))"
    by (rule late_arrival_rejected)
next
  assume "i < length ls \<and> parse_flight_line_txt (ls ! i) = Inl (ValueError m) \<and>
    (\<forall>k<i. \<not> isl (parse_flight_line_txt (ls ! k)))"
  then have "i < length ls" "parse_flight_line_txt (ls ! i) = Inl (ValueError m)"
    "\<forall>k<i. \<not> isl (parse_flight_line_txt (ls ! k))"
    by blast+
  from load_lines_first_error[OF this, of lpath 1 "[]"]
  show "load_flights_txt lpath ls =
        Inl (ValueError (lpath @ '':'' @ dec_digits (i + 1) @ '': '' @ m))"
    by (simp add: load_flights_txt_def add.commute)
next
  assume "parse_time_cell (trow ''depart'') = Inl ce \<or>
    \<not> isl (parse_time_cell (trow ''depart'')) \<and> parse_time_cell (trow ''arrive'') = Inl ce"
  then show "csv_row_flight row_text trow = Inl ce" by (rule csv_bad_time_rejected)
next
  assume "parse_time_cell (arow ''depart'') = Inr cd \<and>
    parse_time_cell (arow ''arrive'') = Inr ca \<and> ca \<le> cd"
  then have "parse_time_cell (arow ''depart'') = Inr cd"
    "parse_time_cell (arow ''arrive'') = Inr ca" "ca \<le> cd"
    by simp_all
  then show "csv_row_flight row_text arow =
        Inl (ValueError (''Arrival must be after departure: '' @ row_text arow))"
    by (rule csv_late_arrival_rejected)
next
  assume "list_all (\<lambda>c. c \<in> set names) required_cols \<and> j < length rs \<and>
    csv_row_flight row_text (rs ! j) = Inl re \<and>
    (\<forall>k<j. \<not> isl (csv_row_flight row_text (rs ! k)))"
  then have h: "list_all (\<lambda>c. c \<in> set names) required_cols"
    and r: "j < length rs" "csv_row_flight row_text (rs ! j) = Inl re"
      "\<forall>k<j. \<not> isl (csv_row_flight row_text (rs ! k))"
    by blast+
  from load_rows_first_error[OF r, of "[]"] h
  show "load_flights_csv cols row_text (Some names) rs = Inl re"
    by (simp add: load_flights_csv_def)
qed

theorem loading_validates_times_witness:
  "parse_flight_line_txt negative_price_line =
     Inr (Some (mk_flight ''A'' ''B'' ''X1'' 480 600 (- 5) 200 300)) \<and>
   times_valid (mk_flight ''A'' ''B'' ''X1'' 480 600 (- 5) 200 300) \<and>
   load_flights_txt ''flights.txt'' [''# schedule'', negative_price_line] =
     Inr [mk_flight ''A'' ''B'' ''X1'' 480 600 (- 5) 200 300] \<and>
   load_flights_csv ''{}'' cells_text (Some required_cols) [negative_price_row] =
     Inr [\<lparr>origin = Some ''A'', dest = Some ''B'', flight_number = Some ''X1'',
           depart = 480, arrive = 600, economy = - 5, business = 200, first = 300\<rparr>] \<and>
   parse_time ''25:70'' = Inl (ValueError ''Hour or minute out of range: 25:70'') \<and>
   parse_flight_line_txt ''A B X1 09:00 25:70 5 200 300'' =
     Inl (ValueError ''Hour or minute out of range: 25:70'') \<and>
   parse_flight_line_txt early_arrival_line =
     Inl (ValueError (''Arrival must be after departure: '' @ strip early_arrival_line)) \<and>
   load_flights_txt ''flights.txt'' [negative_price_line, early_arrival_line] =
     Inl (ValueError
       ''flights.txt:2: Arrival must be after departure: A B X1 10:00 08:00 5 200 300'') \<and>
   csv_row_flight cells_text (negative_price_row(''arrive'' \<mapsto> ''25:70'')) =
     Inl (ValueError ''Hour or minute out of range: 25:70'') \<and>
   csv_row_flight cells_text early_arrival_row =
     Inl (ValueError (''Arrival must be after departure: '' @ cells_text early_arrival_row)) \<and>
   load_flights_csv ''{}'' cells_text (Some required_cols)
       [negative_price_row, early_arrival_row] =
     Inl (ValueError (''Arrival must be after departure: '' @ cells_text early_arrival_row))"
proof -
  let ?tl = "''A B X1 09:00 25:70 5 200 300''"
  let ?tr = "negative_price_row(''arrive'' \<mapsto> ''25:70'')"
  let ?ls = "[negative_price_line, early_arrival_line]"
  let ?rs = "[negative_price_row, early_arrival_row]"
  let ?oor = "ValueError ''Hour or minute out of range: 25:70''"
  let ?am = "''Arrival must be after departure: A B X1 10:00 08:00 5 200 300''"
  let ?re = "ValueError (''Arrival must be after departure: '' @ cells_text early_arrival_row)"
  have s1: "length (split_on CHR '':'' (strip ''25:70'')) = 2" by code_simp
  have s2: "py_int (split_on CHR '':'' (strip ''25:70'') ! 0) = Inr 25" by code_simp
  have s3: "py_int (split_on CHR '':'' (strip ''25:70'') ! 1) = Inr 70" by code_simp
  have t1: "length (split_ws (strip ?tl)) = 8" by code_simp
  have t2: "\<not> startswith (strip ?tl) ''#''" by code_simp
  have t3: "\<not> isl (parse_time (split_ws (strip ?tl) ! 3))" by code_simp
  have t4: "parse_time (split_ws (strip ?tl) ! 4) = Inl ?oor" by code_simp
  have e1: "length (split_ws (strip early_arrival_line)) = 8" by code_simp
  have e2: "\<not> startswith (strip early_arrival_line) ''#''" by code_simp
  have e3: "parse_time (split_ws (strip early_arrival_line) ! 3) = Inr 600" by code_simp
  have e4: "parse_time (split_ws (strip early_arrival_line) ! 4) = Inr 480" by code_simp
  have l1: "parse_flight_line_txt (?ls ! 1) = Inl (ValueError ?am)" by code_simp
  have l0: "\<not> isl (parse_flight_line_txt (?ls ! 0))" by code_simp
  have c1: "\<not> isl (parse_time_cell (?tr ''depart''))" by code_simp
  have c2: "parse_time_cell (?tr ''arrive'') = Inl ?oor" by code_simp
  have a1: "parse_time_cell (early_arrival_row ''depart'') = Inr 600" by code_simp
  have a2: "parse_time_cell (early_arrival_row ''arrive'') = Inr 480" by code_simp
  have r0: "list_all (\<lambda>c. c \<in> set required_cols) required_cols" by code_simp
  have r1: "csv_row_flight cells_text (?rs ! 1) = Inl ?re"
    using a1 a2 by (simp add: csv_row_flight_def)
  have r2: "\<not> isl (csv_row_flight cells_text (?rs ! 0))"
    by (simp add: csv_row_flight_def negative_price_row_def parse_time_cell_def int_cell_def)
       code_simp
  have tv: "times_valid (mk_flight ''A'' ''B'' ''X1'' 480 600 (- 5) 200 300)"
    by (simp add: times_valid_def mk_flight_def)
  note T = loading_validates_times
         [where line = negative_price_line
            and f = "mk_flight ''A'' ''B'' ''X1'' 480 600 (- 5) 200 300"
            and path = "''flights.txt''" and file_lines = "[''# schedule'', negative_price_line]"
            and fs = "[mk_flight ''A'' ''B'' ''X1'' 480 600 (- 5) 200 300]"
            and cols = "''{}''" and row_text = cells_text
            and fieldnames = "Some required_cols" and rows = "[negative_price_row]"
            and cfs = "[\<lparr>origin = Some ''A'', dest = Some ''B'', flight_number = Some ''X1'',
                 depart = 480, arrive = 600, economy = - 5, business = 200, first = 300\<rparr>]"
            and s = "''25:70''" and hour = 25 and minute = 70
            and tline = ?tl and e = ?oor
            and aline = early_arrival_line and d = 600 and a = 480
            and i = 1 and ls = ?ls and m = ?am and lpath = "''flights.txt''"
            and trow = ?tr and ce = ?oor
            and arow = early_arrival_row and cd = 600 and ca = 480
            and names = required_cols and j = 1 and rs = ?rs and re = ?re]
  have n4: "\<not> (0 \<le> (25::int) \<and> (25::int) < 24 \<and> 0 \<le> (70::int) \<and> (70::int) < 60) \<or>
            (25::int) * 60 + 70 < 0 \<or> 1440 \<le> (25::int) * 60 + 70" by simp
  have n6: "(480::int) \<le> 600" by simp
  have n7: "(1::nat) < length ?ls" by simp
  have q7: "\<forall>k<(1::nat). \<not> isl (parse_flight_line_txt (?ls ! k))" using l0 by simp
  have n10: "(1::nat) < length ?rs" by simp
  have q10: "\<forall>k<(1::nat). \<not> isl (csv_row_flight cells_text (?rs ! k))" using r2 by simp
  have dd: "dec_digits (1 + 1) = ''2''" by code_simp
  note T4 = T[THEN conjunct2, THEN conjunct2, THEN conjunct2, THEN conjunct1]
  note T5 = T[THEN conjunct2, THEN conjunct2, THEN conjunct2, THEN conjunct2, THEN conjunct1]
  note T6 = T[THEN conjunct2, THEN conjunct2, THEN conjunct2, THEN conjunct2, THEN conjunct2, THEN conjunct1]
  note T7 = T[THEN conjunct2, THEN conjunct2, THEN conjunct2, THEN conjunct2, THEN conjunct2, THEN conjunct2, THEN conjunct1]
  note T8 = T[THEN conjunct2, THEN conjunct2, THEN conjunct2, THEN conjunct2, THEN conjunct2, THEN conjunct2, THEN conjunct2, THEN conjunct1]
  note T9 = T[THEN conjunct2, THEN conjunct2, THEN conjunct2, THEN conjunct2, THEN conjunct2, THEN conjunct2, THEN conjunct2, THEN conjunct2, THEN conjunct1]
  note T10 = T[THEN conjunct2, THEN conjunct2, THEN conjunct2, THEN conjunct2, THEN conjunct2, THEN conjunct2, THEN conjunct2, THEN conjunct2, THEN conjunct2]
  from T4 s1 s2 s3 n4
  have "parse_time ''25:70'' = Inl (ValueError (''Hour or minute out of range: '' @ ''25:70''))"
    by blast
  then have p4: "parse_time ''25:70'' = Inl ?oor" by simp
  from T5 t1 t2 t3 t4 have p5: "parse_flight_line_txt ?tl = Inl ?oor" by blast
  from T6 e1 e2 e3 e4 n6 have p6: "parse_flight_line_txt early_arrival_line =
     Inl (ValueError (''Arrival must be after departure: '' @ strip early_arrival_line))"
    by blast
  from T7 n7 l1 q7 have "load_flights_txt ''flights.txt'' ?ls =
     Inl (ValueError (''flights.txt'' @ '':'' @ dec_digits (1 + 1) @ '': '' @ ?am))"
    by blast
  then have p7: "load_flights_txt ''flights.txt'' ?ls =
     Inl (ValueError ''flights.txt:2: Arrival must be after departure: A B X1 10:00 08:00 5 200 300'')"
    unfolding dd by simp
  from T8 c1 c2 have p8: "csv_row_flight cells_text ?tr = Inl ?oor" by blast
  from T9 a1 a2 n6 have p9: "csv_row_flight cells_text early_arrival_row = Inl ?re" by blast
  from T10 r0 n10 r1 q10
  have p10: "load_flights_csv ''{}'' cells_text (Some required_cols) ?rs = Inl ?re" by blast
  show ?thesis
    by (intro conjI)
       (rule negative_price_line_loads tv negative_price_file_loads
             negative_price_row_loads[of "''{}''"] p4 p5 p6 p7 p8 p9 p10)+
qed

section \<open>Start and destination the same\<close>

lemma round_trip_earliest:
  "find_earliest_itinerary (build_graph round_trip_flights) ''A'' ''A'' 420 =
     Some (Inr (Some (Itinerary [mk_flight ''A'' ''B'' ''X1'' 480 540 10 20 30,
                                 mk_flight ''B'' ''A'' ''X2'' 600 660 100 200 300])))"
  by code_simp

lemma round_trip_cheapest:
  "find_cheapest_itinerary (build_graph round_trip_flights) ''A'' ''A'' 420 ''business'' =
     Some (Inr (Some (Itinerary [mk_flight ''A'' ''B'' ''X1'' 480 540 10 20 30,
                                 mk_flight ''B'' ''A'' ''X2'' 600 660 100 200 300])))"
  by code_simp

text \<open>
  C4, as the claim states it, fails: with the flights A to B and B to A, a search from A
  to A returns the round trip of two legs, not absence.
\<close>

theorem same_airport_round_trip_returned:
  "find_earliest_itinerary (build_graph round_trip_flights) ''A'' ''A'' 420 \<noteq> Some (Inr None) \<and>
   find_cheapest_itinerary (build_graph round_trip_flights) ''A'' ''A'' 420 ''economy''
     \<noteq> Some (Inr None)"
proof -
  have "find_cheapest_itinerary (build_graph round_trip_flights) ''A'' ''A'' 420 ''economy'' =
     Some (Inr (Some (Itinerary [mk_flight ''A'' ''B'' ''X1'' 480 540 10 20 30,
                                 mk_flight ''B'' ''A'' ''X2'' 600 660 100 200 300])))"
    by code_simp
  with round_trip_earliest show ?thesis by simp
qed

text \<open>
  C4, amended: when start and destination are the same airport, neither search returns
  an itinerary without legs: an itinerary that is returned has at least one leg and is a
  round trip, from the airport back to it, that satisfies the constraints.
\<close>

theorem same_airport_itinerary_is_round_trip:
  "(find_earliest_itinerary (build_graph fs) a a ed = Some (Inr (Some it)) \<longrightarrow>
      flights it \<noteq> [] \<and> satisfies_constraints (build_graph fs) a a ed (flights it)) \<and>
   (find_cheapest_itinerary (build_graph fs) a a ed cabin = Some (Inr (Some it')) \<longrightarrow>
      flights it' \<noteq> [] \<and> satisfies_constraints (build_graph fs) a a ed (flights it'))"
proof (intro conjI impI)
  assume "find_earliest_itinerary (build_graph fs) a a ed = Some (Inr (Some it))"
  then have "earliest_loop (build_graph fs) a [(ed, a, [])] Map.empty = Some (Inr (Some it))"
    by (simp add: find_earliest_itinerary_def)
  from earliest_loop_ok[OF this refl _ refl, where start=a and ed=ed]
  show s: "satisfies_constraints (build_graph fs) a a ed (flights it)"
    by (simp add: estate_ok_def)
  then show "flights it \<noteq> []" by (simp add: satisfies_constraints_def)
next
  assume "find_cheapest_itinerary (build_graph fs) a a ed cabin = Some (Inr (Some it'))"
  then have "cheapest_loop (build_graph fs) a cabin [(0, ed, a, [])] Map.empty
               = Some (Inr (Some it'))"
    by (simp add: find_cheapest_itinerary_def)
  from cheapest_loop_ok[OF this refl _ refl, where start=a and ed=ed]
  show s: "satisfies_constraints (build_graph fs) a a ed (flights it')"
    by (simp add: estate_ok_def cstate_ok_def)
  then show "flights it' \<noteq> []" by (simp add: satisfies_constraints_def)
qed

theorem same_airport_itinerary_is_round_trip_witness:
  "find_earliest_itinerary (build_graph round_trip_flights) ''A'' ''A'' 420 =
     Some (Inr (Some (Itinerary [mk_flight ''A'' ''B'' ''X1'' 480 540 10 20 30,
                                 mk_flight ''B'' ''A'' ''X2'' 600 660 100 200 300]))) \<and>
   find_cheapest_itinerary (build_graph round_trip_flights) ''A'' ''A'' 420 ''business'' =
     Some (Inr (Some (Itinerary [mk_flight ''A'' ''B'' ''X1'' 480 540 10 20 30,
                                 mk_flight ''B'' ''A'' ''X2'' 600 660 100 200 300]))) \<and>
   satisfies_constraints (build_graph round_trip_flights) ''A'' ''A'' 420
     [mk_flight ''A'' ''B'' ''X1'' 480 540 10 20 30,
      mk_flight ''B'' ''A'' ''X2'' 600 660 100 200 300]"
  using same_airport_itinerary_is_round_trip
          [of round_trip_flights "''A''" 420
              "Itinerary [mk_flight ''A'' ''B'' ''X1'' 480 540 10 20 30,
                          mk_flight ''B'' ''A'' ''X2'' 600 660 100 200 300]"
              "''business''"
              "Itinerary [mk_flight ''A'' ''B'' ''X1'' 480 540 10 20 30,
                          mk_flight ''B'' ''A'' ''X2'' 600 660 100 200 300]"]
        round_trip_earliest round_trip_cheapest
  by simp

section \<open>Where the searches fall short\<close>

text \<open>
  C1: the cheapest-price search does not return the cheapest itinerary on the schedule
  \<open>late_cheap_flights\<close>. The itinerary over the flights X2 and X3 satisfies the
  constraints, at 110 in economy, and the search returns \<^verbatim>\<open>None\<close>: the entry that
  reaches B for 10 is expanded first, finds no connection, and marks B as visited at 10,
  so the entry that reaches B for 100, in time for the connection, is skipped.
\<close>

theorem cheapest_search_misses_itinerary:
  "find_cheapest_itinerary (build_graph late_cheap_flights) ''A'' ''C'' 420 ''economy'' =
     Some (Inr None) \<and>
   satisfies_constraints (build_graph late_cheap_flights) ''A'' ''C'' 420
     [mk_flight ''A'' ''B'' ''X2'' 480 540 100 200 300,
      mk_flight ''B'' ''C'' ''X3'' 600 660 10 20 30] \<and>
   total_price (Itinerary [mk_flight ''A'' ''B'' ''X2'' 480 540 100 200 300,
                           mk_flight ''B'' ''C'' ''X3'' 600 660 10 20 30]) ''economy'' = Inr 110"
  by code_simp

text \<open>
  C2: the earliest-arrival search raises \<^verbatim>\<open>TypeError\<close> on the schedule \<open>tie_flights\<close>,
  where the itinerary over the flights X1 and X3 satisfies the constraints: the two
  flights to B arrive at the same time, and the heap orders their entries by their paths,
  which holds two different flights.
\<close>

theorem earliest_search_raises_on_tie:
  "find_earliest_itinerary (build_graph tie_flights) ''A'' ''C'' 420 =
     Some (Inl (TypeError ''< not supported between instances of Flight and Flight'')) \<and>
   satisfies_constraints (build_graph tie_flights) ''A'' ''C'' 420
     [mk_flight ''A'' ''B'' ''X1'' 480 600 100 200 300,
      mk_flight ''B'' ''C'' ''X3'' 660 780 50 100 150]"
  by code_simp

lemma no_itinerary_to_D: "\<not> satisfies_constraints (build_graph tie_flights) ''A'' ''D'' 420 p"
proof
  assume a: "satisfies_constraints (build_graph tie_flights) ''A'' ''D'' 420 p"
  then have ne: "p \<noteq> []" and d: "dest (last p) = ''D''"
    and "list_all (\<lambda>f. f \<in> set (graph_get (build_graph tie_flights) (origin f))) p"
    by (simp_all add: satisfies_constraints_def)
  with ne have "last p \<in> set (graph_get (build_graph tie_flights) (origin (last p)))"
    by (simp add: list_all_iff)
  then have "last p \<in> set tie_flights" by (simp add: graph_get_build_graph)
  with d show False by (auto simp: tie_flights_def mk_flight_def)
qed

text \<open>
  C5: no flight of \<open>tie_flights\<close> arrives at D, so no itinerary from A to D satisfies the
  constraints, and both searches raise \<^verbatim>\<open>TypeError\<close> instead of returning
  \<^verbatim>\<open>None\<close>.
\<close>

theorem unreachable_search_raises_on_tie:
  "(\<forall>p. \<not> satisfies_constraints (build_graph tie_flights) ''A'' ''D'' 420 p) \<and>
   find_earliest_itinerary (build_graph tie_flights) ''A'' ''D'' 420 =
     Some (Inl (TypeError ''< not supported between instances of Flight and Flight'')) \<and>
   find_cheapest_itinerary (build_graph tie_flights) ''A'' ''D'' 420 ''economy'' =
     Some (Inl (TypeError ''< not supported between instances of Flight and Flight''))"
proof -
  have "find_earliest_itinerary (build_graph tie_flights) ''A'' ''D'' 420 =
     Some (Inl (TypeError ''< not supported between instances of Flight and Flight''))"
    by code_simp
  moreover have "find_cheapest_itinerary (build_graph tie_flights) ''A'' ''D'' 420 ''economy'' =
     Some (Inl (TypeError ''< not supported between instances of Flight and Flight''))"
    by code_simp
  ultimately show ?thesis using no_itinerary_to_D by simp
qed

text \<open>
  C10: the comparison of two heap entries is not defined for every pair that the
  earliest-arrival search pushes. The entries of the two flights from A to B of
  \<open>tie_flights\<close> agree on the arrival time and on the airport and differ in the path;
  comparing them raises \<^verbatim>\<open>TypeError\<close>, in the second push of the first expansion, and
  the search raises it.
\<close>

theorem tie_comparison_raises:
  "estate_lt (600, ''B'', [mk_flight ''A'' ''B'' ''X2'' 500 600 100 200 300])
             (600, ''B'', [mk_flight ''A'' ''B'' ''X1'' 480 600 100 200 300]) =
     Inl (TypeError ''< not supported between instances of Flight and Flight'') \<and>
   push_earliest 420 [] (graph_get (build_graph tie_flights) ''A'') [] =
     Inl (TypeError ''< not supported between instances of Flight and Flight'') \<and>
   find_earliest_itinerary (build_graph tie_flights) ''A'' ''B'' 420 =
     Some (Inl (TypeError ''< not supported between instances of Flight and Flight''))"
  by code_simp

end
